theory Spec2Isabelle
  imports Complex_Main "HOL-Library.Char_ord" "HOL-Library.List_Lexorder"
    "HOL-Library.Log_Nat"
begin

section \<open>The Lox scanner of \<^verbatim>\<open>src/scanner.ts\<close>\<close>

text \<open>
  A shallow embedding of the class \<^verbatim>\<open>Scanner\<close>. A JavaScript string is a
  \<^typ>\<open>string\<close>; a one-character string, the result of \<^verbatim>\<open>charAt\<close>, is a list
  of length one, and the empty string (what \<^verbatim>\<open>charAt\<close> yields out of range) is
  the empty list. Strings are compared as JavaScript compares them: lexicographically
  by character code. A character is one of the 256 characters of \<^typ>\<open>char\<close>; a
  code unit beyond them is not represented (the scanner treats it as it treats the
  characters after the closing brace: no case of the dispatch knows it). The mutable
  fields of the class are a record that every method takes and returns.
\<close>

subsection \<open>Tokens\<close>

text \<open>
  Modelled from the spec: the enumeration \<^verbatim>\<open>TokenType\<close> of \<^verbatim>\<open>token_type.ts\<close>,
  which is not among the sources. Its members are the lexical categories that the
  spec lists, under the names by which the scanner refers to them.
\<close>

datatype TokenType =
    LEFT_PAREN | RIGHT_PAREN | LEFT_BRACE | RIGHT_BRACE
  | COMMA | DOT | MINUS | PLUS | SEMICOLON | SLASH | STAR
  | BANG | BANG_EQUAL | EQUAL | EQUAL_EQUAL
  | GREATER | GREATER_EQUAL | LESS | LESS_EQUAL
  | IDENTIFIER | STRING | NUMBER
  | AND | CLASS | ELSE | FALSE | FOR | FUN | IF | NIL | OR
  | PRINT | RETURN | SUPER | THIS | TRUE | VAR | WHILE
  | EOF

text \<open>
  A JavaScript number is an IEEE 754 double: a finite value, which is a rational
  number (\<open>Finite 0\<close> is the positive zero), the negative zero, an infinity, or NaN.
\<close>

datatype Number = Finite rat | NegZero | PosInfinity | NegInfinity | NaN

text \<open>
  The \<^verbatim>\<open>literal\<close> argument of a token is \<^verbatim>\<open>null\<close>, the body of a string or
  the number that \<^verbatim>\<open>parseFloat\<close> returns.
\<close>

datatype Literal = Null | Str string | Num Number

text \<open>
  Modelled from the spec: the class \<^verbatim>\<open>Token\<close> of \<^verbatim>\<open>token.ts\<close>, which is not among
  the sources: an immutable value of a type, a lexeme, a literal and a line, built by
  \<^verbatim>\<open>new Token(type, lexeme, literal, line)\<close>.
\<close>

record Token =
  ttype :: TokenType
  lexeme :: string
  literal :: Literal
  tline :: nat

subsection \<open>Scanner state\<close>

text \<open>
  The fields of \<^verbatim>\<open>Scanner\<close>, and with them the calls that the Diagnostic Sink
  \<^verbatim>\<open>Lox.error\<close> has received, oldest first, each as (line, message).
\<close>

record Scanner =
  source :: string
  tokens :: "Token list"
  start :: nat
  current :: nat
  line :: nat
  reports :: "(nat \<times> string) list"

definition newScanner :: "string \<Rightarrow> Scanner" where
  "newScanner src =
     \<lparr>source = src, tokens = [], start = 0, current = 0, line = 1, reports = []\<rparr>"

text \<open>
  Modelled from the spec: \<^verbatim>\<open>Lox.error\<close> of \<^verbatim>\<open>main.ts\<close>, which is not among
  the sources. The sink has one operation \<^verbatim>\<open>report(line, message)\<close>; the scanner
  does not read its result and does not abort on it. The call is recorded.
\<close>

definition Lox_error :: "nat \<Rightarrow> string \<Rightarrow> Scanner \<Rightarrow> Scanner" where
  "Lox_error l msg s = s\<lparr>reports := reports s @ [(l, msg)]\<rparr>"

subsection \<open>JavaScript string primitives\<close>

definition NUL :: string where "NUL = [CHR 0x00]"

definition NEWLINE :: string where "NEWLINE = [CHR 0x0A]"

definition CR :: string where "CR = [CHR 0x0D]"

definition TAB :: string where "TAB = [CHR 0x09]"

definition DQUOTE :: string where "DQUOTE = [CHR 0x22]"

text \<open>\<^verbatim>\<open>str.charAt(i)\<close>: the character at \<open>i\<close>, the empty string out of range.\<close>

definition charAt :: "string \<Rightarrow> nat \<Rightarrow> string" where
  "charAt str i = (if i < length str then [str ! i] else [])"

text \<open>
  \<^verbatim>\<open>str.substring(a, b)\<close> for indices that are not negative: both are clamped
  to the length, and swapped when \<open>a\<close> is the larger.
\<close>

definition substring :: "string \<Rightarrow> nat \<Rightarrow> nat \<Rightarrow> string" where
  "substring str a b =
     (let a' = min a (length str); b' = min b (length str);
          lo = min a' b'; hi = max a' b'
      in take (hi - lo) (drop lo str))"

subsection \<open>The built-in \<^verbatim>\<open>parseFloat\<close>\<close>

text \<open>
  The number value of a rational that is not negative: the double nearest to it,
  the one with the even significand when two are equally near, and the infinity from
  \<open>2 ^ 1024 - 2 ^ 970\<close> on. The doubles of the binade from \<open>2 ^ e\<close> up to
  \<open>2 ^ (e + 1)\<close> are the multiples of \<open>2 ^ (e - 52)\<close>; below \<open>2 ^ - 1022\<close> they
  are the multiples of \<open>2 ^ - 1074\<close>.
\<close>

definition roundHalfEven :: "rat \<Rightarrow> int" where
  "roundHalfEven x =
     (let f = \<lfloor>x\<rfloor>; d = x - of_int f
      in if 2 * d < 1 then f else if 1 < 2 * d then f + 1
         else if even f then f else f + 1)"

definition binade :: "rat \<Rightarrow> int" where
  "binade q =
     (let (a, b) = quotient_of q; k = bitlen a - bitlen b
      in if 2 powi k \<le> q then k else k - 1)"

definition roundToDouble :: "rat \<Rightarrow> Number" where
  "roundToDouble q =
     (if q = 0 then Finite 0
      else (let ulp = 2 powi (max (binade q) (- 1022) - 52);
                v = of_int (roundHalfEven (q / ulp)) * ulp
            in if 2 ^ 1024 \<le> v then PosInfinity else Finite v))"

definition negateNumber :: "Number \<Rightarrow> Number" where
  "negateNumber n =
     (case n of
        Finite q \<Rightarrow> (if q = 0 then NegZero else Finite (- q))
      | NegZero \<Rightarrow> Finite 0
      | PosInfinity \<Rightarrow> NegInfinity
      | NegInfinity \<Rightarrow> PosInfinity
      | NaN \<Rightarrow> NaN)"

text \<open>
  \<^verbatim>\<open>parseFloat(text)\<close>: white space at the front is dropped, and the longest
  prefix of what is left that is a decimal literal is the numeral: a sign or none,
  then \<^verbatim>\<open>Infinity\<close>, or digits with an optional point and fraction, or a point and
  digits, either with an optional exponent. Without such a prefix the result is NaN;
  otherwise it is the number value of the numeral, rounded exactly (the standard lets
  an implementation cut a numeral after its 20th significant digit; the engines do
  not).
\<close>

definition digitValue :: "char \<Rightarrow> int" where
  "digitValue c = of_char c - 48"

definition isDigitChar :: "char \<Rightarrow> bool" where
  "isDigitChar c = (CHR ''0'' \<le> c \<and> c \<le> CHR ''9'')"

definition decimalValue :: "string \<Rightarrow> int" where
  "decimalValue ds = foldl (\<lambda>a c. 10 * a + digitValue c) 0 ds"

definition isWhiteSpace :: "char \<Rightarrow> bool" where
  "isWhiteSpace c \<longleftrightarrow>
     c \<in> {CHR 0x09, CHR 0x0A, CHR 0x0B, CHR 0x0C, CHR 0x0D, CHR 0x20, CHR 0xA0}"

text \<open>The exponent that a text starts with, 0 when it starts with none.\<close>

definition exponentPart :: "string \<Rightarrow> int" where
  "exponentPart txt =
     (case txt of
        [] \<Rightarrow> 0
      | c # r \<Rightarrow>
          (if c = CHR ''e'' \<or> c = CHR ''E'' then
             (case r of
                [] \<Rightarrow> 0
              | g # d \<Rightarrow>
                  (if g = CHR ''-'' then - decimalValue (takeWhile isDigitChar d)
                   else if g = CHR ''+'' then decimalValue (takeWhile isDigitChar d)
                   else decimalValue (takeWhile isDigitChar r)))
           else 0))"

text \<open>The number of the longest unsigned decimal literal that a text starts with.\<close>

definition unsignedDecimalLiteral :: "string \<Rightarrow> Number option" where
  "unsignedDecimalLiteral txt =
     (if take 8 txt = ''Infinity'' then Some PosInfinity
      else (let ip = takeWhile isDigitChar txt; r = dropWhile isDigitChar txt
            in case r of
                 [] \<Rightarrow>
                   (if ip = [] then None
                    else Some (roundToDouble (of_int (decimalValue ip))))
               | c # fs \<Rightarrow>
                   (if c = CHR ''.'' then
                      (let fp = takeWhile isDigitChar fs; r2 = dropWhile isDigitChar fs
                       in if ip = [] \<and> fp = [] then None
                          else Some (roundToDouble
                                 ((of_int (decimalValue ip) +
                                   of_int (decimalValue fp) / 10 ^ length fp) *
                                  10 powi exponentPart r2)))
                    else if ip = [] then None
                    else Some (roundToDouble
                           (of_int (decimalValue ip) * 10 powi exponentPart r)))))"

definition parseFloat :: "string \<Rightarrow> Number" where
  "parseFloat txt =
     (let trimmed = dropWhile isWhiteSpace txt
      in case trimmed of
           [] \<Rightarrow> NaN
         | c # u \<Rightarrow>
             (if c = CHR ''-'' then
                (case unsignedDecimalLiteral u of
                   None \<Rightarrow> NaN | Some n \<Rightarrow> negateNumber n)
              else if c = CHR ''+'' then
                (case unsignedDecimalLiteral u of None \<Rightarrow> NaN | Some n \<Rightarrow> n)
              else (case unsignedDecimalLiteral trimmed of None \<Rightarrow> NaN | Some n \<Rightarrow> n)))"

subsection \<open>The keyword table\<close>

definition KEYWORDS :: "(string \<times> TokenType) list" where
  "KEYWORDS =
     [(''and'', AND), (''class'', CLASS), (''else'', ELSE), (''false'', FALSE),
      (''for'', FOR), (''fun'', FUN), (''if'', IF), (''nil'', NIL), (''or'', OR),
      (''print'', PRINT), (''return'', RETURN), (''super'', SUPER), (''this'', THIS),
      (''true'', TRUE), (''var'', VAR), (''while'', WHILE)]"

subsection \<open>Cursor primitives\<close>

definition isAtEnd :: "Scanner \<Rightarrow> bool" where
  "isAtEnd s = (current s \<ge> length (source s))"

definition peek :: "Scanner \<Rightarrow> string" where
  "peek s = (if isAtEnd s then NUL else charAt (source s) (current s))"

definition peekNext :: "Scanner \<Rightarrow> string" where
  "peekNext s =
     (if current s + 1 \<ge> length (source s) then NUL
      else charAt (source s) (current s + 1))"

text \<open>\<^verbatim>\<open>advance\<close> and \<^verbatim>\<open>match\<close> return a value and move the cursor.\<close>

definition advance :: "Scanner \<Rightarrow> string \<times> Scanner" where
  "advance s = (charAt (source s) (current s), s\<lparr>current := current s + 1\<rparr>)"

definition match :: "string \<Rightarrow> Scanner \<Rightarrow> bool \<times> Scanner" where
  "match expected s =
     (if peek s \<noteq> expected then (False, s)
      else (True, s\<lparr>current := current s + 1\<rparr>))"

definition addToken :: "TokenType \<Rightarrow> Literal \<Rightarrow> Scanner \<Rightarrow> Scanner" where
  "addToken ty lit s =
     (let text = substring (source s) (start s) (current s)
      in s\<lparr>tokens := tokens s @
            [\<lparr>ttype = ty, lexeme = text, literal = lit, tline = line s\<rparr>]\<rparr>)"

definition isDigit :: "string \<Rightarrow> bool" where
  "isDigit c = (c \<ge> ''0'' \<and> c \<le> ''9'')"

definition isAlpha :: "string \<Rightarrow> bool" where
  "isAlpha c = ((''a'' \<le> c \<and> c \<le> ''z'') \<or> (''A'' \<le> c \<and> c \<le> ''Z'') \<or> c = ''_'')"

definition isAlphaNumeric :: "string \<Rightarrow> bool" where
  "isAlphaNumeric c = (isAlpha c \<or> isDigit c)"

lemma isAtEnd_peek: "isAtEnd s \<Longrightarrow> peek s = NUL"
  by (simp add: peek_def)

lemma isDigit_NUL: "\<not> isDigit NUL"
  by (simp add: isDigit_def NUL_def)

lemma isAlpha_NUL: "\<not> isAlpha NUL"
  by (simp add: isAlpha_def NUL_def)

lemma isDigit_peek_inside: "isDigit (peek s) \<Longrightarrow> current s < length (source s)"
  using isDigit_NUL by (auto simp: peek_def isAtEnd_def split: if_splits)

lemma isAlphaNumeric_peek_inside:
  "isAlphaNumeric (peek s) \<Longrightarrow> current s < length (source s)"
  using isDigit_NUL isAlpha_NUL
  by (auto simp: peek_def isAtEnd_def isAlphaNumeric_def split: if_splits)

subsection \<open>The loops of the literal scanners\<close>

text \<open>The \<^verbatim>\<open>while\<close> of \<^verbatim>\<open>string()\<close>.\<close>

function string_loop :: "Scanner \<Rightarrow> Scanner" where
  "string_loop s =
     (if peek s \<noteq> DQUOTE \<and> \<not> isAtEnd s
      then string_loop
             (snd (advance (if peek s = NEWLINE then s\<lparr>line := line s + 1\<rparr> else s)))
      else s)"
  by pat_completeness auto

termination
  by (relation "measure (\<lambda>s. length (source s) - current s)")
     (auto simp: advance_def isAtEnd_def)

text \<open>\<^verbatim>\<open>while (this.isDigit(this.peek())) this.advance();\<close>, twice in \<^verbatim>\<open>number()\<close>.\<close>

function digits_loop :: "Scanner \<Rightarrow> Scanner" where
  "digits_loop s =
     (if isDigit (peek s) then digits_loop (snd (advance s)) else s)"
  by pat_completeness auto

termination
  by (relation "measure (\<lambda>s. length (source s) - current s)")
     (auto simp: advance_def dest: isDigit_peek_inside)

text \<open>The \<^verbatim>\<open>while\<close> of \<^verbatim>\<open>identifier()\<close>.\<close>

function identifier_loop :: "Scanner \<Rightarrow> Scanner" where
  "identifier_loop s =
     (if isAlphaNumeric (peek s) then identifier_loop (snd (advance s)) else s)"
  by pat_completeness auto

termination
  by (relation "measure (\<lambda>s. length (source s) - current s)")
     (auto simp: advance_def dest: isAlphaNumeric_peek_inside)

text \<open>The \<^verbatim>\<open>while\<close> that skips a comment, in \<^verbatim>\<open>scanToken()\<close>.\<close>

function comment_loop :: "Scanner \<Rightarrow> Scanner" where
  "comment_loop s =
     (if peek s \<noteq> NEWLINE \<and> \<not> isAtEnd s then comment_loop (snd (advance s)) else s)"
  by pat_completeness auto

termination
  by (relation "measure (\<lambda>s. length (source s) - current s)")
     (auto simp: advance_def isAtEnd_def)

declare string_loop.simps [simp del] digits_loop.simps [simp del]
  identifier_loop.simps [simp del] comment_loop.simps [simp del]

subsection \<open>The literal scanners\<close>

text \<open>
  The methods \<^verbatim>\<open>string\<close>, \<^verbatim>\<open>number\<close> and \<^verbatim>\<open>identifier\<close>; the first and the
  last carry a suffix, their names being taken in Isabelle. In \<^verbatim>\<open>string\<close> the
  index \<^verbatim>\<open>current - 1\<close> is taken on natural numbers: where JavaScript would
  compute \<open>-1\<close>, \<^verbatim>\<open>substring\<close> clamps it to 0, the value of the truncated
  subtraction.
\<close>

definition string_scan :: "Scanner \<Rightarrow> Scanner" where
  "string_scan s =
     (let s1 = string_loop s
      in if isAtEnd s1 then Lox_error (line s1) ''unexpected character.'' s1
         else (let s2 = snd (advance s1);
                   str = substring (source s2) (start s2 + 1) (current s2 - 1)
               in addToken STRING (Str str) s2))"

definition number :: "Scanner \<Rightarrow> Scanner" where
  "number s =
     (let s1 = digits_loop s;
          s2 = (if peek s1 = ''.'' \<and> isDigit (peekNext s1)
                then digits_loop (snd (advance s1)) else s1)
      in addToken NUMBER
           (Num (parseFloat (substring (source s2) (start s2) (current s2)))) s2)"

definition identifier_scan :: "Scanner \<Rightarrow> Scanner" where
  "identifier_scan s =
     (let s1 = identifier_loop s;
          text = substring (source s1) (start s1) (current s1);
          tokenType = (case map_of KEYWORDS text of
                         None \<Rightarrow> IDENTIFIER | Some ty \<Rightarrow> ty)
      in addToken tokenType Null s1)"

subsection \<open>Dispatch and the main loop\<close>

definition scanToken :: "Scanner \<Rightarrow> Scanner" where
  "scanToken s =
     (let (c, s1) = advance s in
      if c = ''('' then addToken LEFT_PAREN Null s1
      else if c = '')'' then addToken RIGHT_PAREN Null s1
      else if c = ''{'' then addToken LEFT_BRACE Null s1
      else if c = ''}'' then addToken RIGHT_BRACE Null s1
      else if c = '','' then addToken COMMA Null s1
      else if c = ''.'' then addToken DOT Null s1
      else if c = ''-'' then addToken MINUS Null s1
      else if c = ''+'' then addToken PLUS Null s1
      else if c = '';'' then addToken SEMICOLON Null s1
      else if c = ''*'' then addToken STAR Null s1
      else if c = ''!'' then
        (let (m, s2) = match ''='' s1 in addToken (if m then BANG_EQUAL else BANG) Null s2)
      else if c = ''='' then
        (let (m, s2) = match ''='' s1 in addToken (if m then EQUAL_EQUAL else EQUAL) Null s2)
      else if c = ''<'' then
        (let (m, s2) = match ''='' s1 in addToken (if m then LESS_EQUAL else LESS) Null s2)
      else if c = ''>'' then
        (let (m, s2) = match ''='' s1
         in addToken (if m then GREATER_EQUAL else GREATER) Null s2)
      else if c = ''/'' then
        (let (m, s2) = match ''/'' s1
         in if m then comment_loop s2 else addToken SLASH Null s2)
      else if c = '' '' \<or> c = CR \<or> c = TAB then s1
      else if c = NEWLINE then s1\<lparr>line := line s1 + 1\<rparr>
      else if c = DQUOTE then string_scan s1
      else if isDigit c then number s1
      else if isAlpha c then identifier_scan s1
      else Lox_error (line s1) ''Unexpected character.'' s1)"

text \<open>
  The \<^verbatim>\<open>while\<close> of \<^verbatim>\<open>scanTokens()\<close>; it terminates because every call of
  \<^verbatim>\<open>scanToken\<close> moves the cursor forward, which is proved below.
\<close>

function scanTokens_loop :: "Scanner \<Rightarrow> Scanner" where
  "scanTokens_loop s =
     (if \<not> isAtEnd s then scanTokens_loop (scanToken (s\<lparr>start := current s\<rparr>)) else s)"
  by pat_completeness auto

definition scanTokens :: "Scanner \<Rightarrow> Token list \<times> Scanner" where
  "scanTokens s =
     (let s1 = scanTokens_loop s;
          s2 = s1\<lparr>tokens := tokens s1 @
                 [\<lparr>ttype = EOF, lexeme = [], literal = Null, tline = line s1\<rparr>]\<rparr>
      in (tokens s2, s2))"

section \<open>Vocabulary of the properties\<close>

subsection \<open>Characters, and the input around the cursor\<close>

text \<open>
  The character tests of the scanner on single characters; \<open>rest\<close>, the input
  from the cursor on; \<open>skip\<close>, which moves the cursor; the number of newlines of a
  text.
\<close>

definition isAlphaChar :: "char \<Rightarrow> bool" where
  "isAlphaChar c = ((CHR ''a'' \<le> c \<and> c \<le> CHR ''z'') \<or> (CHR ''A'' \<le> c \<and> c \<le> CHR ''Z'') \<or> c = CHR ''_'')"

definition rest :: "Scanner \<Rightarrow> string" where
  "rest s = drop (current s) (source s)"

definition skip :: "nat \<Rightarrow> Scanner \<Rightarrow> Scanner" where
  "skip n s = s\<lparr>current := current s + n\<rparr>"

definition isAlphaNumericChar :: "char \<Rightarrow> bool" where
  "isAlphaNumericChar c = (isAlphaChar c \<or> isDigitChar c)"

definition newlines :: "string \<Rightarrow> nat" where
  "newlines xs = length (filter (\<lambda>c. c = CHR 0x0A) xs)"

subsection \<open>What one call of \<^verbatim>\<open>scanToken\<close> may do\<close>

text \<open>
  A call consumes at least one character and stays inside the input, counts the
  newlines it consumes, and then either adds one token whose lexeme is the consumed
  text, or adds nothing and the text is one that is discarded, or sends one report.
\<close>

definition consumed :: "Scanner \<Rightarrow> Scanner \<Rightarrow> string" where
  "consumed s s' = take (current s' - current s) (rest s)"

definition discardable :: "string \<Rightarrow> bool" where
  "discardable x \<longleftrightarrow>
     x = '' '' \<or> x = CR \<or> x = TAB \<or> x = NEWLINE \<or>
     (take 2 x = ''//'' \<and> CHR 0x0A \<notin> set x)"

definition step_spec :: "Scanner \<Rightarrow> Scanner \<Rightarrow> bool" where
  "step_spec s s' \<longleftrightarrow>
     source s' = source s \<and> current s < current s' \<and> current s' \<le> length (source s) \<and>
     line s' = line s + newlines (consumed s s') \<and>
     ((\<exists>ty lit. ty \<noteq> EOF \<and> (ty = STRING \<or> newlines (consumed s s') = 0) \<and>
         reports s' = reports s \<and>
         tokens s' = tokens s @
           [\<lparr>ttype = ty, lexeme = consumed s s', literal = lit, tline = line s'\<rparr>]) \<or>
      (tokens s' = tokens s \<and> reports s' = reports s \<and> discardable (consumed s s')) \<or>
      (tokens s' = tokens s \<and> (\<exists>msg. reports s' = reports s @ [(line s', msg)])))"

subsection \<open>The floating-point value of a numeral\<close>

text \<open>
  The finite doubles are the numbers \<open>m * 2 ^ e\<close> with \<open>m < 2 ^ 53\<close> and \<open>e\<close>
  from \<open>- 1074\<close> to \<open>971\<close>, and their negatives. The number value of a rational
  \<open>q\<close> that is not negative is the infinity when \<open>q\<close> is at least
  \<open>2 ^ 1024 - 2 ^ 970\<close>; otherwise it is a double that no double is nearer to
  \<open>q\<close> than, and when another double is as near, it is the one that is an even
  multiple of their distance. The value of a numeral of digits with an optional
  fraction is the sum of its digits, each times the power of ten of its place.
\<close>

definition isDouble :: "rat \<Rightarrow> bool" where
  "isDouble v \<longleftrightarrow>
     (\<exists>m e. \<bar>v\<bar> = of_nat m * 2 powi e \<and> m < 2 ^ 53 \<and> - 1074 \<le> e \<and> e \<le> 971)"

definition isNumberValueOf :: "rat \<Rightarrow> Number \<Rightarrow> bool" where
  "isNumberValueOf q n \<longleftrightarrow>
     (if 2 ^ 1024 - 2 ^ 970 \<le> q then n = PosInfinity
      else (\<exists>v. n = Finite v \<and> isDouble v \<and>
              (\<forall>d. isDouble d \<longrightarrow> \<bar>q - v\<bar> \<le> \<bar>q - d\<bar>) \<and>
              (\<forall>d. isDouble d \<and> d \<noteq> v \<and> \<bar>q - d\<bar> = \<bar>q - v\<bar> \<longrightarrow>
                   (\<exists>k::int. v = 2 * of_int k * \<bar>v - d\<bar>))))"

definition numeralValue :: "string \<Rightarrow> rat" where
  "numeralValue txt =
     (let ip = takeWhile (\<lambda>c. c \<noteq> CHR ''.'') txt;
          fp = drop 1 (dropWhile (\<lambda>c. c \<noteq> CHR ''.'') txt)
      in (\<Sum>i\<leftarrow>[0..<length ip]. of_int (digitValue (ip ! i)) * 10 ^ (length ip - 1 - i)) +
         (\<Sum>i\<leftarrow>[0..<length fp]. of_int (digitValue (fp ! i)) / 10 ^ (i + 1)))"

subsection \<open>The lexemes, in the words of the specification\<close>

text \<open>
  A number is the longest run of digits, followed by a point and the longest run of
  digits after it when a digit follows the point at once; an identifier is the longest
  run of letters, digits and underscores; the body of a string runs to the next double
  quote, a comment to the next newline.
\<close>

definition number_text :: "string \<Rightarrow> string" where
  "number_text xs =
     (let ds = takeWhile isDigitChar xs
      in case dropWhile isDigitChar xs of
           c # d # r \<Rightarrow>
             (if c = CHR ''.'' \<and> isDigitChar d
              then ds @ CHR ''.'' # takeWhile isDigitChar (d # r) else ds)
         | _ \<Rightarrow> ds)"

definition identifier_text :: "string \<Rightarrow> string" where
  "identifier_text xs = takeWhile isAlphaNumericChar xs"

definition string_body :: "string \<Rightarrow> string" where
  "string_body xs = takeWhile (\<lambda>c. c \<noteq> CHR 0x22) xs"

definition comment_text :: "string \<Rightarrow> string" where
  "comment_text xs = takeWhile (\<lambda>c. c \<noteq> CHR 0x0A) xs"

subsection \<open>The scan as a segmentation of the input\<close>

text \<open>
  Every pass of the main loop consumes one segment of the input: the lexeme of a
  token, a span that is skipped (white space, a newline, a comment), or a span that
  is reported to the sink. A segment is well formed with respect to the line on which
  it starts.
\<close>

datatype Segment = Lexeme Token | Skipped string | Rejected string

fun segText :: "Segment \<Rightarrow> string" where
  "segText (Lexeme t) = lexeme t"
| "segText (Skipped x) = x"
| "segText (Rejected x) = x"

fun segTokens :: "Segment list \<Rightarrow> Token list" where
  "segTokens [] = []"
| "segTokens (Lexeme t # gs) = t # segTokens gs"
| "segTokens (Skipped x # gs) = segTokens gs"
| "segTokens (Rejected x # gs) = segTokens gs"

fun rejected :: "Segment list \<Rightarrow> nat" where
  "rejected [] = 0"
| "rejected (Rejected x # gs) = Suc (rejected gs)"
| "rejected (g # gs) = rejected gs"

definition segsText :: "Segment list \<Rightarrow> string" where
  "segsText gs = concat (map segText gs)"

fun segOk :: "nat \<Rightarrow> Segment \<Rightarrow> bool" where
  "segOk l (Lexeme t) =
     (ttype t \<noteq> EOF \<and> tline t = l + newlines (lexeme t) \<and>
      (ttype t = STRING \<or> newlines (lexeme t) = 0))"
| "segOk l (Skipped x) = discardable x"
| "segOk l (Rejected x) = True"

fun segsOk :: "nat \<Rightarrow> Segment list \<Rightarrow> bool" where
  "segsOk l [] = True"
| "segsOk l (g # gs) = (segOk l g \<and> segText g \<noteq> [] \<and> segsOk (l + newlines (segText g)) gs)"

subsection \<open>The cases of the dispatch\<close>

text \<open>
  The token types of the four operators that look ahead, and the characters that the
  dispatch knows: those of the \<^verbatim>\<open>switch\<close>, the digits, the letters and the
  underscore.
\<close>

definition oneCharOperator :: "char \<Rightarrow> TokenType" where
  "oneCharOperator c =
     (if c = CHR ''!'' then BANG else if c = CHR ''='' then EQUAL
      else if c = CHR ''<'' then LESS else GREATER)"

definition twoCharOperator :: "char \<Rightarrow> TokenType" where
  "twoCharOperator c =
     (if c = CHR ''!'' then BANG_EQUAL else if c = CHR ''='' then EQUAL_EQUAL
      else if c = CHR ''<'' then LESS_EQUAL else GREATER_EQUAL)"

definition switchCases :: string where
  "switchCases = ''(){},.-+;*!=<>/ '' @ [CHR 0x0D, CHR 0x09, CHR 0x0A, CHR 0x22]"

definition recognized :: "char \<Rightarrow> bool" where
  "recognized c \<longleftrightarrow> c \<in> set switchCases \<or> isDigitChar c \<or> isAlphaChar c"

section \<open>The number value of \<^verbatim>\<open>parseFloat\<close>\<close>

text \<open>
  \<open>roundToDouble\<close> returns the number value of every rational that is not
  negative.
\<close>

lemma roundHalfEven_floor:
  obtains f :: int where "of_int f \<le> x" "x < of_int f + 1"
    "roundHalfEven x =
       (if 2 * (x - of_int f) < 1 then f else if 1 < 2 * (x - of_int f) then f + 1
        else if even f then f else f + 1)"
proof -
  have "of_int \<lfloor>x\<rfloor> \<le> x" "x < of_int \<lfloor>x\<rfloor> + 1" by linarith+
  moreover have "roundHalfEven x =
       (if 2 * (x - of_int \<lfloor>x\<rfloor>) < 1 then \<lfloor>x\<rfloor>
        else if 1 < 2 * (x - of_int \<lfloor>x\<rfloor>) then \<lfloor>x\<rfloor> + 1
        else if even \<lfloor>x\<rfloor> then \<lfloor>x\<rfloor> else \<lfloor>x\<rfloor> + 1)"
    by (simp only: roundHalfEven_def Let_def)
  ultimately show ?thesis by (rule that)
qed

lemma roundHalfEven_half: "\<bar>x - of_int (roundHalfEven x)\<bar> \<le> 1 / 2"
proof -
  obtain f where "of_int f \<le> x" "x < of_int f + 1"
    "roundHalfEven x =
       (if 2 * (x - of_int f) < 1 then f else if 1 < 2 * (x - of_int f) then f + 1
        else if even f then f else f + 1)"
    by (rule roundHalfEven_floor)
  then show ?thesis
    by (auto simp: abs_if)
qed

lemma roundHalfEven_nearest: "\<bar>x - of_int (roundHalfEven x)\<bar> \<le> \<bar>x - of_int k\<bar>"
proof -
  obtain f where f: "of_int f \<le> x" "x < of_int f + 1"
    "roundHalfEven x =
       (if 2 * (x - of_int f) < 1 then f else if 1 < 2 * (x - of_int f) then f + 1
        else if even f then f else f + 1)"
    by (rule roundHalfEven_floor)
  consider "k \<le> f" | "f + 1 \<le> k" by linarith
  then show ?thesis
  proof cases
    case 1
    then have k: "(of_int k :: rat) \<le> of_int f" by simp
    have "\<bar>x - of_int k\<bar> = x - of_int k" using f(1) k by simp
    moreover have "\<bar>x - of_int (roundHalfEven x)\<bar> \<le> x - of_int f"
      using f by (auto simp: abs_if)
    ultimately show ?thesis using k by linarith
  next
    case 2
    then have "(of_int (f + 1) :: rat) \<le> of_int k" by (simp only: of_int_le_iff)
    then have k: "(of_int f + 1 :: rat) \<le> of_int k" by simp
    have "\<bar>x - of_int k\<bar> = of_int k - x" using f(2) k by simp
    moreover have "\<bar>x - of_int (roundHalfEven x)\<bar> \<le> of_int f + 1 - x"
      using f by (auto simp: abs_if)
    ultimately show ?thesis using k by linarith
  qed
qed

lemma roundHalfEven_tie:
  assumes "\<bar>x - of_int (roundHalfEven x)\<bar> = \<bar>x - of_int k\<bar>" "k \<noteq> roundHalfEven x"
  shows "even (roundHalfEven x) \<and> \<bar>roundHalfEven x - k\<bar> = 1"
proof -
  let ?m = "roundHalfEven x"
  have h: "\<bar>x - of_int ?m\<bar> \<le> 1 / 2" by (rule roundHalfEven_half)
  have ne: "(of_int k :: rat) \<noteq> of_int ?m" using assms(2) by simp
  have "\<bar>(of_int k :: rat) - of_int ?m\<bar> \<le> 1"
    using h assms(1) by (auto simp: abs_if split: if_splits)
  then have "(of_int \<bar>k - ?m\<bar> :: rat) \<le> of_int 1" by simp
  then have "\<bar>k - ?m\<bar> \<le> 1" by (simp only: of_int_le_iff)
  with assms(2) have d: "\<bar>?m - k\<bar> = 1" by linarith
  then have "\<bar>(of_int ?m :: rat) - of_int k\<bar> = 1"
    by (metis of_int_diff of_int_abs of_int_1)
  then have dist: "\<bar>x - of_int ?m\<bar> = 1 / 2"
    using assms(1) ne by (auto simp: abs_if split: if_splits)
  obtain f where f: "of_int f \<le> x" "x < of_int f + 1"
    "roundHalfEven x =
       (if 2 * (x - of_int f) < 1 then f else if 1 < 2 * (x - of_int f) then f + 1
        else if even f then f else f + 1)"
    by (rule roundHalfEven_floor)
  have "even ?m"
    using dist f by (auto simp: abs_if split: if_splits)
  with d show ?thesis by simp
qed

lemma roundHalfEven_ge: "of_int n \<le> x \<Longrightarrow> n \<le> roundHalfEven x"
proof -
  assume n: "of_int n \<le> x"
  obtain f where f: "of_int f \<le> x" "x < of_int f + 1"
    "roundHalfEven x =
       (if 2 * (x - of_int f) < 1 then f else if 1 < 2 * (x - of_int f) then f + 1
        else if even f then f else f + 1)"
    by (rule roundHalfEven_floor)
  have "(of_int n :: rat) < of_int (f + 1)" using n f(2) by simp
  then have "n < f + 1" by (simp only: of_int_less_iff)
  then show ?thesis using f(3) by (auto split: if_splits)
qed

lemma roundHalfEven_le: "x \<le> of_int n \<Longrightarrow> roundHalfEven x \<le> n"
proof (cases "x = of_int n")
  case True
  then show ?thesis by (simp add: roundHalfEven_def)
next
  case False
  assume "x \<le> of_int n"
  with False have n: "x < of_int n" by simp
  obtain f where f: "of_int f \<le> x" "x < of_int f + 1"
    "roundHalfEven x =
       (if 2 * (x - of_int f) < 1 then f else if 1 < 2 * (x - of_int f) then f + 1
        else if even f then f else f + 1)"
    by (rule roundHalfEven_floor)
  have "(of_int f :: rat) < of_int n" using n f(1) by linarith
  then have "f < n" by (simp only: of_int_less_iff)
  then show ?thesis using f(3) by (auto split: if_splits)
qed

lemma roundHalfEven_up:
  assumes "of_int n - 1 / 2 \<le> x" "even n"
  shows "n \<le> roundHalfEven x"
proof (cases "of_int n \<le> x")
  case True
  then show ?thesis by (rule roundHalfEven_ge)
next
  case False
  obtain f where f: "of_int f \<le> x" "x < of_int f + 1"
    "roundHalfEven x =
       (if 2 * (x - of_int f) < 1 then f else if 1 < 2 * (x - of_int f) then f + 1
        else if even f then f else f + 1)"
    by (rule roundHalfEven_floor)
  have "(of_int f :: rat) < of_int n" using False f(1) by linarith
  then have 1: "f < n" by (simp only: of_int_less_iff)
  have "(of_int (n - 1) :: rat) < of_int (f + 1)" using assms(1) f(2) by simp
  then have "n - 1 < f + 1" by (simp only: of_int_less_iff)
  with 1 have fe: "f = n - 1" by linarith
  then have "odd f" using assms(2) by simp
  moreover have "1 \<le> 2 * (x - of_int f)" using assms(1) fe by simp
  ultimately show ?thesis
    using f(3) fe by (auto split: if_splits)
qed

lemma bitlen_powi:
  assumes "0 < a"
  shows "(2::rat) powi (bitlen a - 1) \<le> of_int a" "(of_int a :: rat) < 2 powi bitlen a"
proof -
  have b: "2 ^ nat (bitlen a - 1) \<le> a" "a < 2 ^ nat (bitlen a)"
    using bitlen_bounds [OF assms] by simp_all
  have ge: "1 \<le> bitlen a"
    using assms bitlen_eq_zero_iff [of a] bitlen_nonneg [of a] by linarith
  have "(of_int (2 ^ nat (bitlen a - 1)) :: rat) \<le> of_int a"
    using b(1) by (simp only: of_int_le_iff)
  then show "(2::rat) powi (bitlen a - 1) \<le> of_int a"
    using ge by (simp add: power_int_nonneg_exp)
  have "(of_int a :: rat) < of_int (2 ^ nat (bitlen a))"
    using b(2) by (simp only: of_int_less_iff)
  then show "(of_int a :: rat) < 2 powi bitlen a"
    using ge by (simp add: power_int_nonneg_exp)
qed

lemma binade_bounds:
  assumes "0 < q"
  shows "2 powi binade q \<le> q" "q < 2 powi (binade q + 1)"
proof -
  obtain a b where ab: "quotient_of q = (a, b)" by (cases "quotient_of q")
  have b: "0 < b" using ab by (rule quotient_of_denom_pos)
  have q: "q = of_int a / of_int b" using ab by (rule quotient_of_div)
  have a: "0 < a"
    using assms b unfolding q by (simp add: zero_less_divide_iff)
  let ?k = "bitlen a - bitlen b"
  note A = bitlen_powi [OF a] and B = bitlen_powi [OF b]
  have pb: "(0::rat) < of_int b" using b by simp
  have "(2::rat) powi (?k - 1) = 2 powi (bitlen a - 1) / 2 powi bitlen b"
    by (simp add: power_int_diff [symmetric] algebra_simps)
  also have "\<dots> \<le> of_int a / 2 powi bitlen b"
    using A(1) by (simp add: divide_right_mono)
  also have "\<dots> < of_int a / of_int b"
    using B(2) a pb by (simp add: divide_strict_left_mono)
  finally have lo: "2 powi (?k - 1) < q" unfolding q .
  have "of_int a / of_int b < 2 powi bitlen a / (of_int b :: rat)"
    using A(2) pb by (simp add: divide_strict_right_mono)
  also have "\<dots> \<le> 2 powi bitlen a / 2 powi (bitlen b - 1)"
    using B(1) pb by (intro divide_left_mono) simp_all
  also have "\<dots> = 2 powi (?k + 1)"
    by (simp add: power_int_diff [symmetric] algebra_simps)
  finally have hi: "q < 2 powi (?k + 1)" unfolding q .
  have bd: "binade q = (if 2 powi ?k \<le> q then ?k else ?k - 1)"
    by (simp add: binade_def ab)
  show "2 powi binade q \<le> q"
    using lo by (simp add: bd)
  show "q < 2 powi (binade q + 1)"
    using hi by (auto simp: bd)
qed

lemma binade_le: "0 < q \<Longrightarrow> q < 2 powi n \<Longrightarrow> binade q < n"
proof -
  assume "0 < q" "q < 2 powi n"
  then have "(2::rat) powi binade q < 2 powi n"
    using binade_bounds(1) [of q] by linarith
  then show ?thesis
    by (metis power_int_increasing not_less one_le_numeral leD)
qed

lemma binade_ge: "0 < q \<Longrightarrow> 2 powi n \<le> q \<Longrightarrow> n \<le> binade q"
proof -
  assume "0 < q" "2 powi n \<le> q"
  then have "(2::rat) powi n < 2 powi (binade q + 1)"
    using binade_bounds(2) [of q] by linarith
  then have "n < binade q + 1"
    by (metis power_int_increasing not_less one_le_numeral leD)
  then show ?thesis by simp
qed

lemma powi_split: "b \<le> a \<Longrightarrow> (2::rat) powi a = 2 ^ nat (a - b) * 2 powi b"
proof -
  assume le: "b \<le> a"
  have "(2::rat) powi a = 2 powi ((a - b) + b)" by simp
  also have "\<dots> = 2 powi (a - b) * 2 powi b"
    by (rule power_int_add) simp
  also have "(2::rat) powi (a - b) = 2 ^ nat (a - b)"
    using le by (simp add: power_int_nonneg_exp)
  finally show ?thesis .
qed

lemma powi_less_cancel: "(2::rat) powi a < 2 powi b \<Longrightarrow> a < b"
  by (metis power_int_increasing not_less one_le_numeral leD)

lemma isDouble_multiple_min:
  assumes "isDouble d"
  shows "\<exists>k::int. d = of_int k * 2 powi (- 1074)"
proof -
  obtain m e where me: "\<bar>d\<bar> = of_nat m * 2 powi e" "- 1074 \<le> e"
    using assms unfolding isDouble_def by blast
  have "\<bar>d\<bar> = of_int (int m * 2 ^ nat (e + 1074)) * 2 powi (- 1074)"
    using powi_split [OF me(2)] me(1) by simp
  then have "d = of_int (int m * 2 ^ nat (e + 1074)) * 2 powi (- 1074) \<or>
      d = of_int (- (int m * 2 ^ nat (e + 1074))) * 2 powi (- 1074)"
    by (cases "0 \<le> d") (simp_all add: abs_if)
  then show ?thesis by blast
qed

lemma isDouble_multiple:
  assumes "isDouble d" "2 powi e \<le> d"
  shows "\<exists>k::int. d = of_int k * 2 powi (e - 52)"
proof -
  have pos: "0 < d" using assms(2) zero_less_power_int [of "2::rat" e] by linarith
  obtain m e' where me: "\<bar>d\<bar> = of_nat m * 2 powi e'" "m < 2 ^ 53"
    using assms(1) unfolding isDouble_def by blast
  have d: "d = of_nat m * 2 powi e'" using me(1) pos by simp
  have "(of_nat m :: rat) < of_nat (2 ^ 53)" using me(2) by (simp only: of_nat_less_iff)
  then have "(of_nat m :: rat) < 2 powi 53" by simp
  then have "d < 2 powi 53 * 2 powi e'"
    unfolding d by (simp add: mult_strict_right_mono)
  also have "\<dots> = 2 powi (53 + e')"
    by (rule power_int_add [symmetric]) simp
  finally have "(2::rat) powi e < 2 powi (53 + e')" using assms(2) by linarith
  then have "e < 53 + e'" by (rule powi_less_cancel)
  then have "e - 52 \<le> e'" by simp
  then have "d = of_int (int m * 2 ^ nat (e' - (e - 52))) * 2 powi (e - 52)"
    unfolding d using powi_split [of "e - 52" e'] by simp
  then show ?thesis by blast
qed

lemma isDouble_0: "isDouble 0"
  unfolding isDouble_def by (intro exI [of _ 0] exI [of _ "0::int"]) simp

lemma roundToDouble_0: "isNumberValueOf 0 (roundToDouble 0)"
proof -
  have "\<not> (2 ^ 1024 - 2 ^ 970 \<le> (0::rat))" by simp
  then show ?thesis
    by (simp add: isNumberValueOf_def roundToDouble_def isDouble_0)
qed

lemma roundToDouble_pos:
  assumes "0 < q"
  shows "isNumberValueOf q (roundToDouble q)"
proof -
  define e where "e = binade q"
  define ex where "ex = max e (- 1022)"
  define u :: rat where "u = 2 powi (ex - 52)"
  define x where "x = q / u"
  define m where "m = roundHalfEven x"
  define v :: rat where "v = of_int m * u"
  have u: "0 < u" by (simp add: u_def)
  have q: "q = x * u" using u by (simp add: x_def)
  have B: "2 powi e \<le> q" "q < 2 powi (e + 1)"
    using binade_bounds [OF assms] by (simp_all add: e_def)
  have rd: "roundToDouble q = (if 2 ^ 1024 \<le> v then PosInfinity else Finite v)"
    using assms
    by (simp add: roundToDouble_def Let_def v_def m_def x_def u_def ex_def e_def)
  have x0: "0 < x" using assms u by (simp add: x_def)
  then have m0: "0 \<le> m"
    unfolding m_def using roundHalfEven_ge [of 0 x] by simp
  have dist: "\<bar>q - of_int k * u\<bar> = \<bar>x - of_int k\<bar> * u" for k :: int
  proof -
    have "q - of_int k * u = (x - of_int k) * u" by (simp add: q algebra_simps)
    then show ?thesis using u by (simp add: abs_mult)
  qed
  have near: "\<bar>q - v\<bar> \<le> \<bar>q - of_int k * u\<bar>" for k :: int
    unfolding dist v_def m_def
    using roundHalfEven_nearest [of x k] u by (simp add: mult_right_mono)
  have lo: "2 powi e = of_int (2 ^ 52) * u" if "- 1022 \<le> e"
  proof -
    have "ex = e" using that by (simp add: ex_def)
    then have "u = 2 powi (e - 52)" by (simp add: u_def)
    moreover have "(2::rat) powi e = 2 ^ nat (e - (e - 52)) * 2 powi (e - 52)"
      by (rule powi_split) simp
    ultimately show ?thesis by simp
  qed
  have hi: "q < 2 ^ 53 * u"
  proof -
    have "e + 1 \<le> ex + 1" by (simp add: ex_def)
    then have "(2::rat) powi (e + 1) \<le> 2 powi (ex + 1)"
      by (intro power_int_increasing) simp_all
    also have "(2::rat) powi (ex + 1) = 2 ^ nat (ex + 1 - (ex - 52)) * u"
      unfolding u_def by (rule powi_split) simp
    also have "nat (ex + 1 - (ex - 52)) = 53" by simp
    finally show ?thesis using B(2) by linarith
  qed
  then have "x < of_int (2 ^ 53)" using u by (simp add: x_def pos_divide_less_eq)
  then have m53: "m \<le> 2 ^ 53"
    unfolding m_def using roundHalfEven_le [of x "2 ^ 53"] by simp
  have mult: "(\<exists>k::int. d = of_int k * u) \<or> (d < 2 powi e \<and> - 1022 \<le> e)"
    if "isDouble d" for d
  proof (cases "- 1022 \<le> e")
    case True
    then have "ex = e" by (simp add: ex_def)
    then show ?thesis
      using isDouble_multiple [OF that, of e] True by (auto simp: u_def not_le)
  next
    case False
    then have "ex = - 1022" by (simp add: ex_def)
    then have u': "u = 2 powi (- 1074)" by (simp add: u_def)
    have "\<exists>k::int. d = of_int k * u"
      unfolding u' by (rule isDouble_multiple_min [OF that])
    then show ?thesis ..
  qed
  have below: "\<bar>q - v\<bar> < \<bar>q - d\<bar>" if "d < 2 powi e" "- 1022 \<le> e" for d
  proof -
    have "\<bar>q - v\<bar> \<le> \<bar>q - 2 powi e\<bar>"
      unfolding lo [OF that(2)] by (rule near)
    also have "\<dots> = q - 2 powi e" using B(1) by simp
    also have "\<dots> < q - d" using that(1) by simp
    also have "\<dots> = \<bar>q - d\<bar>" using that(1) B(1) by simp
    finally show ?thesis .
  qed
  have nearest: "\<bar>q - v\<bar> \<le> \<bar>q - d\<bar>" if "isDouble d" for d
    using mult [OF that] near below by (auto simp: less_imp_le)
  have tie: "\<exists>k::int. v = 2 * of_int k * \<bar>v - d\<bar>"
    if d: "isDouble d" "d \<noteq> v" "\<bar>q - d\<bar> = \<bar>q - v\<bar>" for d
  proof -
    have "\<exists>k::int. d = of_int k * u"
      using mult [OF d(1)] below [of d] d(3) by auto
    then obtain k :: int where k: "d = of_int k * u" ..
    have km: "k \<noteq> m" using d(2) by (auto simp: k v_def)
    have "\<bar>x - of_int m\<bar> * u = \<bar>x - of_int k\<bar> * u"
      using d(3) unfolding k v_def dist by auto
    then have "\<bar>x - of_int m\<bar> = \<bar>x - of_int k\<bar>" using u by simp
    then have ev: "even m" "\<bar>m - k\<bar> = 1"
      using roundHalfEven_tie [of x k] km by (simp_all add: m_def)
    have "v - d = of_int (m - k) * u" by (simp add: v_def k algebra_simps)
    then have "\<bar>v - d\<bar> = of_int \<bar>m - k\<bar> * u"
      using u by (simp add: abs_mult)
    then have vd: "\<bar>v - d\<bar> = u" using ev(2) by simp
    obtain j where "m = 2 * j" using ev(1) by (auto elim: evenE)
    then have vj: "v = 2 * of_int j * u" by (simp add: v_def)
    have "v = 2 * of_int j * \<bar>v - d\<bar>" by (subst vd) (rule vj)
    then show ?thesis ..
  qed
  have T: "(2::rat) ^ 1024 = 2 powi 1024" by simp
  have T53: "(2::rat) ^ 1024 = 2 ^ 53 * 2 powi 971" by simp
  have thr: "(2::rat) ^ 1024 - 2 ^ 970 = (of_int (2 ^ 53) - 1 / 2) * 2 powi 971" by simp
  have thr_lo: "(2::rat) powi 1023 \<le> 2 ^ 1024 - 2 ^ 970" by simp
  have vu: "v \<le> 2 ^ 53 * u"
    using m53 u by (simp add: v_def mult_right_mono)
  show ?thesis
  proof (cases "2 ^ 1024 - 2 ^ 970 \<le> q")
    case True
    then have "2 powi 1023 \<le> q" using thr_lo by linarith
    then have e: "1023 \<le> e" unfolding e_def by (rule binade_ge [OF assms])
    then have ex: "ex = e" by (simp add: ex_def)
    have "2 ^ 1024 \<le> v"
    proof (cases "e = 1023")
      case True
      then have u': "u = 2 powi 971" by (simp add: u_def ex)
      have "(of_int (2 ^ 53) - 1 / 2) * u \<le> x * u"
        using \<open>2 ^ 1024 - 2 ^ 970 \<le> q\<close> unfolding thr q u' .
      then have "of_int (2 ^ 53) - 1 / 2 \<le> x" using u by simp
      then have "2 ^ 53 \<le> m"
        unfolding m_def by (rule roundHalfEven_up) simp
      then have "(of_int (2 ^ 53) :: rat) \<le> of_int m" by (simp only: of_int_le_iff)
      then have "2 ^ 53 * u \<le> v" using u by (simp add: v_def mult_right_mono)
      then show ?thesis unfolding T53 u' .
    next
      case False
      with e have e': "1024 \<le> e" by simp
      have "of_int (2 ^ 52) * u \<le> x * u"
        using B(1) lo e by (simp add: q)
      then have "of_int (2 ^ 52) \<le> x" using u by simp
      then have "2 ^ 52 \<le> m" unfolding m_def by (rule roundHalfEven_ge)
      then have "(of_int (2 ^ 52) :: rat) \<le> of_int m" by (simp only: of_int_le_iff)
      then have "of_int (2 ^ 52) * u \<le> v" using u by (simp add: v_def mult_right_mono)
      then have "2 powi e \<le> v" using lo e by simp
      moreover have "(2::rat) powi 1024 \<le> 2 powi e"
        using e' by (intro power_int_increasing) simp_all
      ultimately show ?thesis unfolding T by linarith
    qed
    with True show ?thesis by (simp add: isNumberValueOf_def rd)
  next
    case False
    then have qT: "q < 2 powi 1024" unfolding T [symmetric] by simp
    then have e: "e \<le> 1023"
      using binade_le [OF assms qT] by (simp add: e_def)
    have fin: "v < 2 ^ 1024 \<and> isDouble v"
    proof (cases "- 1022 \<le> e")
      case sub: False
      then have u': "u = 2 powi (- 1074)" by (simp add: u_def ex_def)
      have "e + 1 \<le> - 1022" using sub by simp
      then have "(2::rat) powi (e + 1) \<le> 2 powi (- 1022)"
        by (intro power_int_increasing) simp_all
      also have "(2::rat) powi (- 1022) = 2 ^ nat (- 1022 - (- 1074)) * 2 powi (- 1074)"
        by (rule powi_split) simp
      finally have "x * u < of_int (2 ^ 52) * u"
        using B(2) unfolding q u' by simp
      then have "x < of_int (2 ^ 52)" using u by simp
      then have m52: "m \<le> 2 ^ 52"
        unfolding m_def using roundHalfEven_le [of x "2 ^ 52"] by simp
      have "\<bar>v\<bar> = of_nat (nat m) * 2 powi (- 1074)"
        using m0 u by (simp add: v_def u' abs_mult)
      moreover have "nat m < 2 ^ 53" using m52 m0 by simp
      ultimately have "isDouble v"
        unfolding isDouble_def by (intro exI [of _ "nat m"] exI [of _ "- 1074"]) simp
      moreover have "v < 2 ^ 1024"
      proof -
        have "(of_int m :: rat) \<le> of_int (2 ^ 52)" using m52 by (simp only: of_int_le_iff)
        then have "v \<le> of_int (2 ^ 52) * 2 powi (- 1074)"
          by (simp add: v_def u' mult_right_mono)
        also have "\<dots> < 2 ^ 1024" by simp
        finally show ?thesis .
      qed
      ultimately show ?thesis by simp
    next
      case nor: True
      then have ex: "ex = e" by (simp add: ex_def)
      have u': "u = 2 powi (e - 52)" by (simp add: u_def ex)
      show ?thesis
      proof (cases "m = 2 ^ 53")
        case False
        then have m': "m < 2 ^ 53" using m53 by simp
        have "\<bar>v\<bar> = of_nat (nat m) * 2 powi (e - 52)"
          using m0 u by (simp add: v_def u' abs_mult)
        moreover have "nat m < 2 ^ 53" using m' m0 by simp
        ultimately have "isDouble v"
          unfolding isDouble_def
          using nor e by (intro exI [of _ "nat m"] exI [of _ "e - 52"]) simp
        moreover have "v < 2 ^ 1024"
        proof -
          have "(of_int m :: rat) < of_int (2 ^ 53)" using m' by (simp only: of_int_less_iff)
          then have "v < of_int (2 ^ 53) * u"
            using u by (simp add: v_def mult_strict_right_mono)
          also have "\<dots> = 2 powi 53 * 2 powi (e - 52)"
            unfolding u' by simp
          also have "\<dots> = 2 powi (53 + (e - 52))"
            by (rule power_int_add [symmetric]) simp
          also have "\<dots> \<le> 2 powi 1024"
            using e by (intro power_int_increasing) simp_all
          finally show ?thesis unfolding T .
        qed
        ultimately show ?thesis by simp
      next
        case top: True
        have "\<bar>x - of_int m\<bar> \<le> 1 / 2"
          unfolding m_def by (rule roundHalfEven_half)
        then have xm: "of_int (2 ^ 53) - 1 / 2 \<le> x" unfolding top by (simp add: abs_if split: if_splits)
        have e': "e \<le> 1022"
        proof (rule ccontr)
          assume "\<not> e \<le> 1022"
          with e have "e = 1023" by simp
          then have "u = 2 powi 971" by (simp add: u')
          then have "2 ^ 1024 - 2 ^ 970 \<le> q"
            unfolding thr q using xm by (simp add: mult_right_mono)
          with \<open>\<not> 2 ^ 1024 - 2 ^ 970 \<le> q\<close> show False by simp
        qed
        have v': "v = 2 powi (e + 1)"
        proof -
          have "v = 2 powi 53 * 2 powi (e - 52)" by (simp add: v_def top u')
          also have "\<dots> = 2 powi (53 + (e - 52))"
            by (rule power_int_add [symmetric]) simp
          also have "53 + (e - 52) = e + 1" by simp
          finally show ?thesis .
        qed
        have s: "(2::rat) powi (e + 1) = 2 ^ nat (e + 1 - (e - 51)) * 2 powi (e - 51)"
          by (rule powi_split) simp
        have n: "nat (e + 1 - (e - 51)) = 52" by simp
        have "v = of_nat (2 ^ 52) * 2 powi (e - 51)"
          unfolding v' s n by simp
        moreover have "0 \<le> v" unfolding v' by simp
        ultimately have av: "\<bar>v\<bar> = of_nat (2 ^ 52) * 2 powi (e - 51)"
          by (simp only: abs_of_nonneg)
        have c: "(2::nat) ^ 52 < 2 ^ 53" by simp
        have r: "- 1074 \<le> e - 51" "e - 51 \<le> 971" using nor e' by simp_all
        have "isDouble v"
          unfolding isDouble_def using av c r by blast
        moreover have "v < 2 ^ 1024"
        proof -
          have "(2::rat) powi (e + 1) \<le> 2 powi 1023"
            using e' by (intro power_int_increasing) simp_all
          also have "\<dots> < 2 ^ 1024" by simp
          finally show ?thesis unfolding v' .
        qed
        ultimately show ?thesis by simp
      qed
    qed
    then have "roundToDouble q = Finite v" by (simp add: rd)
    with False fin nearest tie show ?thesis
      unfolding isNumberValueOf_def by auto
  qed
qed

lemma decimalValue_snoc: "decimalValue (ds @ [c]) = 10 * decimalValue ds + digitValue c"
  by (simp add: decimalValue_def)

lemma decimalValue_positional:
  "(of_int (decimalValue ds) :: rat) =
     (\<Sum>i<length ds. of_int (digitValue (ds ! i)) * 10 ^ (length ds - 1 - i))"
proof (induction ds rule: rev_induct)
  case Nil
  then show ?case by (simp add: decimalValue_def)
next
  case (snoc c ds)
  let ?n = "length ds"
  have "(\<Sum>i<?n. of_int (digitValue ((ds @ [c]) ! i)) * (10::rat) ^ (length (ds @ [c]) - 1 - i))
      = (\<Sum>i<?n. 10 * (of_int (digitValue (ds ! i)) * 10 ^ (?n - 1 - i)))"
  proof (rule sum.cong)
    fix i assume "i \<in> {..<?n}"
    then have i: "i < ?n" by simp
    then have "?n - i = Suc (?n - 1 - i)" by simp
    then show "of_int (digitValue ((ds @ [c]) ! i)) * (10::rat) ^ (length (ds @ [c]) - 1 - i)
        = 10 * (of_int (digitValue (ds ! i)) * 10 ^ (?n - 1 - i))"
      using i by (simp add: nth_append)
  qed simp
  also have "\<dots> = 10 * of_int (decimalValue ds)"
    by (simp only: sum_distrib_left [symmetric] snoc.IH)
  finally show ?case
    by (simp add: decimalValue_snoc)
qed

lemma decimalValue_fraction:
  "(of_int (decimalValue fs) :: rat) / 10 ^ length fs =
     (\<Sum>i<length fs. of_int (digitValue (fs ! i)) / 10 ^ (i + 1))"
proof -
  let ?n = "length fs"
  have "(of_int (decimalValue fs) :: rat) / 10 ^ ?n =
      (\<Sum>i<?n. of_int (digitValue (fs ! i)) * 10 ^ (?n - 1 - i) / 10 ^ ?n)"
    by (simp only: decimalValue_positional sum_divide_distrib)
  also have "\<dots> = (\<Sum>i<?n. of_int (digitValue (fs ! i)) / 10 ^ (i + 1))"
  proof (rule sum.cong)
    fix i assume "i \<in> {..<?n}"
    then have "?n = (?n - 1 - i) + (i + 1)" by simp
    then have "(10::rat) ^ ?n = 10 ^ (?n - 1 - i) * 10 ^ (i + 1)"
      by (metis power_add)
    then show "of_int (digitValue (fs ! i)) * (10::rat) ^ (?n - 1 - i) / 10 ^ ?n
        = of_int (digitValue (fs ! i)) / 10 ^ (i + 1)"
      by simp
  qed simp
  finally show ?thesis .
qed

lemma sum_list_upt: "(\<Sum>i\<leftarrow>[0..<n]. f i) = (\<Sum>i<n. f i)" for f :: "nat \<Rightarrow> rat"
  by (simp add: interv_sum_list_conv_sum_set_nat lessThan_atLeast0)

lemma digit_not_point: "isDigitChar c \<Longrightarrow> c \<noteq> CHR ''.''"
  by (auto simp: isDigitChar_def)

lemma numeralValue_integer:
  assumes "\<forall>c\<in>set ds. isDigitChar c"
  shows "numeralValue ds = of_int (decimalValue ds)"
proof -
  have "\<forall>c\<in>set ds. c \<noteq> CHR ''.''" using assms digit_not_point by blast
  then have tw: "takeWhile (\<lambda>c. c \<noteq> CHR ''.'') ds = ds"
    and dw: "dropWhile (\<lambda>c. c \<noteq> CHR ''.'') ds = []"
    by simp_all
  have "numeralValue ds =
      (\<Sum>i\<leftarrow>[0..<length ds]. of_int (digitValue (ds ! i)) * 10 ^ (length ds - 1 - i)) +
      (\<Sum>i\<leftarrow>[0..<length (drop 1 ([]::string))].
          of_int (digitValue (drop 1 [] ! i)) / 10 ^ (i + 1))"
    unfolding numeralValue_def Let_def tw dw ..
  also have "\<dots> = (\<Sum>i<length ds. of_int (digitValue (ds ! i)) * 10 ^ (length ds - 1 - i))"
    by (simp add: sum_list_upt)
  also have "\<dots> = of_int (decimalValue ds)"
    by (rule decimalValue_positional [symmetric])
  finally show ?thesis .
qed

lemma numeralValue_fraction:
  assumes "\<forall>c\<in>set ds. isDigitChar c"
  shows "numeralValue (ds @ CHR ''.'' # fs) =
     of_int (decimalValue ds) + of_int (decimalValue fs) / 10 ^ length fs"
proof -
  have "\<forall>c\<in>set ds. c \<noteq> CHR ''.''" using assms digit_not_point by blast
  then have tw: "takeWhile (\<lambda>c. c \<noteq> CHR ''.'') (ds @ CHR ''.'' # fs) = ds"
    and dw: "dropWhile (\<lambda>c. c \<noteq> CHR ''.'') (ds @ CHR ''.'' # fs) = CHR ''.'' # fs"
    by (simp_all add: takeWhile_append2 dropWhile_append2)
  have "numeralValue (ds @ CHR ''.'' # fs) =
      (\<Sum>i\<leftarrow>[0..<length ds]. of_int (digitValue (ds ! i)) * 10 ^ (length ds - 1 - i)) +
      (\<Sum>i\<leftarrow>[0..<length (drop 1 (CHR ''.'' # fs))].
          of_int (digitValue (drop 1 (CHR ''.'' # fs) ! i)) / 10 ^ (i + 1))"
    unfolding numeralValue_def Let_def tw dw ..
  also have "\<dots> =
      (\<Sum>i<length ds. of_int (digitValue (ds ! i)) * 10 ^ (length ds - 1 - i)) +
      (\<Sum>i<length fs. of_int (digitValue (fs ! i)) / 10 ^ (i + 1))"
    by (simp add: sum_list_upt)
  also have "\<dots> = of_int (decimalValue ds) + of_int (decimalValue fs) / 10 ^ length fs"
    by (simp only: decimalValue_positional [symmetric] decimalValue_fraction [symmetric])
  finally show ?thesis .
qed

lemma digit_facts:
  assumes "isDigitChar c"
  shows "\<not> isWhiteSpace c" "c \<noteq> CHR ''-''" "c \<noteq> CHR ''+''" "c \<noteq> CHR ''I''"
  using assms by (auto simp: isDigitChar_def isWhiteSpace_def)

lemma decimalValue_nonneg:
  assumes "\<forall>c\<in>set ds. isDigitChar c"
  shows "0 \<le> decimalValue ds"
  using assms
proof (induction ds rule: rev_induct)
  case Nil
  then show ?case by (simp add: decimalValue_def)
next
  case (snoc c ds)
  then have "isDigitChar c" by simp
  then have "(48 :: nat) \<le> of_char c"
    by (simp add: isDigitChar_def less_eq_char_def)
  then have "(48 :: int) \<le> of_nat (of_char c)" by linarith
  then have "0 \<le> digitValue c"
    by (simp add: digitValue_def of_nat_of_char)
  with snoc show ?case by (simp add: decimalValue_snoc)
qed

lemma parseFloat_unsigned:
  assumes "isDigitChar c"
  shows "parseFloat (c # r) =
     (case unsignedDecimalLiteral (c # r) of None \<Rightarrow> NaN | Some n \<Rightarrow> n)"
  using digit_facts [OF assms] by (simp add: parseFloat_def)

lemma parseFloat_integer:
  assumes "ds \<noteq> []" "\<forall>c\<in>set ds. isDigitChar c"
  shows "parseFloat ds = roundToDouble (numeralValue ds)"
proof -
  obtain c r where ds: "ds = c # r" using assms(1) by (cases ds) auto
  then have c: "isDigitChar c" using assms(2) by simp
  have tw: "takeWhile isDigitChar ds = ds" "dropWhile isDigitChar ds = []"
    using assms(2) by simp_all
  have inf: "take 8 ds \<noteq> ''Infinity''"
    using digit_facts(4) [OF c] by (auto simp: ds)
  have "unsignedDecimalLiteral ds = Some (roundToDouble (of_int (decimalValue ds)))"
    using inf assms(1) by (simp add: unsignedDecimalLiteral_def tw)
  then show ?thesis
    using parseFloat_unsigned [OF c, of r]
    by (simp add: ds [symmetric] numeralValue_integer [OF assms(2)])
qed

lemma parseFloat_fraction:
  assumes "ds \<noteq> []" "\<forall>c\<in>set ds. isDigitChar c" "\<forall>c\<in>set fs. isDigitChar c"
  shows "parseFloat (ds @ CHR ''.'' # fs) = roundToDouble (numeralValue (ds @ CHR ''.'' # fs))"
proof -
  let ?txt = "ds @ CHR ''.'' # fs"
  obtain c r where ds: "ds = c # r" using assms(1) by (cases ds) auto
  then have c: "isDigitChar c" using assms(2) by simp
  have np: "\<not> isDigitChar (CHR ''.'')" by (simp add: isDigitChar_def)
  have tw: "takeWhile isDigitChar ?txt = ds" "dropWhile isDigitChar ?txt = CHR ''.'' # fs"
    using assms(2) np by (simp_all add: takeWhile_append2 dropWhile_append2)
  have tf: "takeWhile isDigitChar fs = fs" "dropWhile isDigitChar fs = []"
    using assms(3) by simp_all
  have inf: "take 8 ?txt \<noteq> ''Infinity''"
    using digit_facts(4) [OF c] by (auto simp: ds)
  have "unsignedDecimalLiteral ?txt =
      Some (roundToDouble ((of_int (decimalValue ds) +
              of_int (decimalValue fs) / 10 ^ length fs) * 10 powi exponentPart []))"
    using inf assms(1) by (simp add: unsignedDecimalLiteral_def tw tf Let_def)
  then have "unsignedDecimalLiteral ?txt = Some (roundToDouble (numeralValue ?txt))"
    by (simp add: exponentPart_def numeralValue_fraction [OF assms(2)])
  then show ?thesis
    using parseFloat_unsigned [OF c, of "r @ CHR ''.'' # fs"]
    by (simp add: ds)
qed

lemma number_text_cases:
  obtains (integer) "number_text xs = takeWhile isDigitChar xs"
  | (fraction) fs where
      "number_text xs = takeWhile isDigitChar xs @ CHR ''.'' # fs" "\<forall>c\<in>set fs. isDigitChar c"
proof (cases "dropWhile isDigitChar xs")
  case Nil
  have "number_text xs = takeWhile isDigitChar xs"
    unfolding number_text_def Nil by simp
  then show ?thesis by (rule integer)
next
  case c: (Cons c l)
  show ?thesis
  proof (cases l)
    case Nil
    then have "number_text xs = takeWhile isDigitChar xs" by (simp add: number_text_def c)
    then show ?thesis by (rule integer)
  next
    case (Cons d r)
    show ?thesis
    proof (cases "c = CHR ''.'' \<and> isDigitChar d")
      case True
      then have "number_text xs = takeWhile isDigitChar xs @ CHR ''.'' # takeWhile isDigitChar (d # r)"
        by (simp add: number_text_def c Cons)
      moreover have "\<forall>c\<in>set (takeWhile isDigitChar (d # r)). isDigitChar c"
        by (blast dest: set_takeWhileD)
      ultimately show ?thesis by (rule fraction)
    next
      case False
      then have "number_text xs = takeWhile isDigitChar xs"
        by (auto simp add: number_text_def c Cons)
      then show ?thesis by (rule integer)
    qed
  qed
qed

lemma number_text_shape:
  assumes "isDigitChar c"
  obtains (integer) ds where "number_text (c # r) = ds" "ds \<noteq> []" "\<forall>c\<in>set ds. isDigitChar c"
  | (fraction) ds fs where "number_text (c # r) = ds @ CHR ''.'' # fs" "ds \<noteq> []"
      "\<forall>c\<in>set ds. isDigitChar c" "\<forall>c\<in>set fs. isDigitChar c"
proof -
  define ds where "ds = takeWhile isDigitChar (c # r)"
  have ne: "ds \<noteq> []" using assms by (simp add: ds_def)
  have dg: "\<forall>c\<in>set ds. isDigitChar c"
    unfolding ds_def by (blast dest: set_takeWhileD)
  show ?thesis
  proof (cases rule: number_text_cases [of "c # r"])
    case integer
    then have "number_text (c # r) = ds" by (simp only: ds_def)
    then show ?thesis using ne dg by (rule that(1))
  next
    case (fraction fs)
    then have "number_text (c # r) = ds @ CHR ''.'' # fs" by (simp only: ds_def)
    then show ?thesis using ne dg fraction(2) by (rule that(2))
  qed
qed

lemma numeralValue_nonneg_integer:
  "\<forall>c\<in>set ds. isDigitChar c \<Longrightarrow> 0 \<le> numeralValue ds"
  by (simp add: numeralValue_integer decimalValue_nonneg)

lemma numeralValue_nonneg_fraction:
  "\<forall>c\<in>set ds. isDigitChar c \<Longrightarrow> \<forall>c\<in>set fs. isDigitChar c \<Longrightarrow>
     0 \<le> numeralValue (ds @ CHR ''.'' # fs)"
  by (simp add: numeralValue_fraction decimalValue_nonneg)

lemma roundToDouble_number_value: "0 \<le> q \<Longrightarrow> isNumberValueOf q (roundToDouble q)"
  using roundToDouble_0 roundToDouble_pos [of q] by (cases "q = 0") auto

lemma parseFloat_number_text:
  assumes "isDigitChar c"
  shows "isNumberValueOf (numeralValue (number_text (c # r))) (parseFloat (number_text (c # r)))"
  using assms
proof (cases rule: number_text_shape [of c r])
  case (integer ds)
  then show ?thesis
    using parseFloat_integer [of ds] numeralValue_nonneg_integer [of ds]
    by (simp add: roundToDouble_number_value)
next
  case (fraction ds fs)
  then show ?thesis
    using parseFloat_fraction [of ds fs] numeralValue_nonneg_fraction [of ds fs]
    by (simp add: roundToDouble_number_value)
qed


lemma isNumberValueOf_unique:
  assumes "isNumberValueOf q n" "isNumberValueOf q n'"
  shows "n = n'"
proof (cases "2 ^ 1024 - 2 ^ 970 \<le> q")
  case True
  have "n = PosInfinity" "n' = PosInfinity"
    using assms unfolding isNumberValueOf_def by (simp_all only: True if_True)
  then show ?thesis by simp
next
  case False
  have "\<exists>v. n = Finite v \<and> isDouble v \<and>
           (\<forall>d. isDouble d \<longrightarrow> \<bar>q - v\<bar> \<le> \<bar>q - d\<bar>) \<and>
           (\<forall>d. isDouble d \<and> d \<noteq> v \<and> \<bar>q - d\<bar> = \<bar>q - v\<bar> \<longrightarrow>
                (\<exists>k::int. v = 2 * of_int k * \<bar>v - d\<bar>))"
    using assms(1) unfolding isNumberValueOf_def by (simp only: False if_False)
  then obtain v where v: "n = Finite v" "isDouble v"
      "\<And>d. isDouble d \<Longrightarrow> \<bar>q - v\<bar> \<le> \<bar>q - d\<bar>"
      "\<And>d. isDouble d \<Longrightarrow> d \<noteq> v \<Longrightarrow> \<bar>q - d\<bar> = \<bar>q - v\<bar> \<Longrightarrow>
                \<exists>k::int. v = 2 * of_int k * \<bar>v - d\<bar>"
    by blast
  have "\<exists>v. n' = Finite v \<and> isDouble v \<and>
           (\<forall>d. isDouble d \<longrightarrow> \<bar>q - v\<bar> \<le> \<bar>q - d\<bar>) \<and>
           (\<forall>d. isDouble d \<and> d \<noteq> v \<and> \<bar>q - d\<bar> = \<bar>q - v\<bar> \<longrightarrow>
                (\<exists>k::int. v = 2 * of_int k * \<bar>v - d\<bar>))"
    using assms(2) unfolding isNumberValueOf_def by (simp only: False if_False)
  then obtain w where w: "n' = Finite w" "isDouble w"
      "\<And>d. isDouble d \<Longrightarrow> \<bar>q - w\<bar> \<le> \<bar>q - d\<bar>"
      "\<And>d. isDouble d \<Longrightarrow> d \<noteq> w \<Longrightarrow> \<bar>q - d\<bar> = \<bar>q - w\<bar> \<Longrightarrow>
                \<exists>k::int. w = 2 * of_int k * \<bar>w - d\<bar>"
    by blast
  have eq: "\<bar>q - v\<bar> = \<bar>q - w\<bar>"
    using v(3) [OF w(2)] w(3) [OF v(2)] by simp
  have "v = w"
  proof (rule ccontr)
    assume ne: "v \<noteq> w"
    define a where "a = \<bar>v - w\<bar>"
    have a: "0 < a" using ne by (simp add: a_def)
    obtain k :: int where k: "v = 2 * of_int k * a"
      using v(4) [OF w(2)] ne eq unfolding a_def by metis
    have "\<bar>w - v\<bar> = a" by (simp add: a_def abs_minus_commute)
    then obtain l :: int where l: "w = 2 * of_int l * a"
      using w(4) [OF v(2)] ne eq by metis
    have "v - w = of_int (2 * (k - l)) * a"
      by (subst k, subst l) (simp add: algebra_simps)
    then have "a = \<bar>of_int (2 * (k - l)) * a\<bar>" by (simp only: a_def)
    moreover define x :: rat where "x = \<bar>of_int (2 * (k - l))\<bar>"
    ultimately have "a = x * a"
      using a by (simp only: abs_mult abs_of_pos)
    then have "x = 1" using a by simp
    then have "of_int \<bar>2 * (k - l)\<bar> = (1 :: rat)" by (simp only: x_def of_int_abs)
    then have "\<bar>2 * (k - l)\<bar> = 1" by (simp only: of_int_eq_1_iff)
    then show False by presburger
  qed
  then show ?thesis by (simp add: v(1) w(1))
qed

lemma parseFloat_number_value:
  assumes "isDigitChar c"
  shows "isNumberValueOf (numeralValue (number_text (c # r))) n \<longleftrightarrow>
         n = parseFloat (number_text (c # r))"
  using isNumberValueOf_unique parseFloat_number_text [OF assms] by blast

lemma number_text_digits:
  assumes "\<forall>c\<in>set xs. isDigitChar c"
  shows "number_text xs = xs"
proof -
  have tw: "takeWhile isDigitChar xs = xs" and dw: "dropWhile isDigitChar xs = []"
    using assms by simp_all
  show ?thesis unfolding number_text_def tw dw by simp
qed

lemma decimalValue_power_of_ten:
  "decimalValue (CHR ''1'' # replicate n (CHR ''0'')) = 10 ^ n"
proof (induction n)
  case 0
  show ?case by (simp add: decimalValue_def digitValue_def)
next
  case (Suc n)
  have "CHR ''1'' # replicate (Suc n) (CHR ''0'') = (CHR ''1'' # replicate n (CHR ''0'')) @ [CHR ''0'']"
    by (simp add: replicate_append_same)
  then have "decimalValue (CHR ''1'' # replicate (Suc n) (CHR ''0'')) =
      10 * decimalValue (CHR ''1'' # replicate n (CHR ''0'')) + digitValue (CHR ''0'')"
    by (simp only: decimalValue_snoc)
  then show ?case by (simp add: Suc digitValue_def)
qed

lemma parseFloat_overflow:
  assumes "ds \<noteq> []" "\<forall>c\<in>set ds. isDigitChar c" "2 ^ 1024 - 2 ^ 970 \<le> decimalValue ds"
  shows "parseFloat ds = PosInfinity"
proof -
  have "(2 :: rat) ^ 1024 - 2 ^ 970 = of_int (2 ^ 1024 - 2 ^ 970)"
    by (simp only: of_int_diff of_int_power of_int_numeral)
  also have "\<dots> \<le> of_int (decimalValue ds)" using assms(3) by (simp only: of_int_le_iff)
  finally have big: "2 ^ 1024 - 2 ^ 970 \<le> numeralValue ds"
    by (simp only: numeralValue_integer [OF assms(2)])
  then have "0 \<le> numeralValue ds" by (rule order_trans [rotated]) simp
  then have "isNumberValueOf (numeralValue ds) (roundToDouble (numeralValue ds))"
    by (rule roundToDouble_number_value)
  then have "roundToDouble (numeralValue ds) = PosInfinity"
    unfolding isNumberValueOf_def by (simp only: big if_True)
  then show ?thesis by (simp only: parseFloat_integer [OF assms(1,2)])
qed

section \<open>The scanner, step by step\<close>

subsection \<open>The loops consume the longest run\<close>

lemma isDigit_single: "isDigit [c] = isDigitChar c"
  by (auto simp: isDigit_def isDigitChar_def)

lemma isAlpha_single: "isAlpha [c] = isAlphaChar c"
  by (auto simp: isAlpha_def isAlphaChar_def)

lemma peek_inside: "current s < length (source s) \<Longrightarrow> peek s = [source s ! current s]"
  by (simp add: peek_def isAtEnd_def charAt_def)

lemma peek_outside: "length (source s) \<le> current s \<Longrightarrow> peek s = NUL"
  by (simp add: peek_def isAtEnd_def)

lemma rest_Cons: "current s < length (source s) \<Longrightarrow> rest s = source s ! current s # rest (skip 1 s)"
  by (simp add: rest_def skip_def Cons_nth_drop_Suc)

lemma rest_Nil: "length (source s) \<le> current s \<Longrightarrow> rest s = []"
  by (simp add: rest_def)

lemma peek_rest: "peek s = (case rest s of [] \<Rightarrow> NUL | c # cs \<Rightarrow> [c])"
proof (cases "current s < length (source s)")
  case True
  then show ?thesis by (simp add: rest_Cons peek_inside)
next
  case False
  then show ?thesis by (simp add: rest_Nil peek_outside)
qed

lemma snd_advance: "snd (advance s) = skip 1 s"
  by (simp add: advance_def skip_def)

lemma skip_skip: "skip m (skip n s) = skip (n + m) s"
  by (simp add: skip_def add.assoc)

lemma skip_0: "skip 0 s = s"
  by (simp add: skip_def)

lemma digits_loop_eq:
  "digits_loop s = skip (length (takeWhile isDigitChar (rest s))) s"
proof (induction s rule: digits_loop.induct)
  case (1 s)
  show ?case
  proof (cases "isDigit (peek s)")
    case True
    then have inside: "current s < length (source s)" by (rule isDigit_peek_inside)
    with True have d: "isDigitChar (source s ! current s)"
      by (simp add: peek_inside isDigit_single)
    have "digits_loop s = digits_loop (snd (advance s))"
      using True by (subst digits_loop.simps) simp
    also have "\<dots> = skip (length (takeWhile isDigitChar (rest (skip 1 s)))) (skip 1 s)"
      using "1.IH" [OF True] by (simp add: snd_advance)
    finally show ?thesis
      using d by (simp add: rest_Cons [OF inside] skip_skip)
  next
    case False
    then have "\<not> isDigitChar (hd (rest s)) \<or> rest s = []"
      by (cases "rest s") (auto simp: peek_rest isDigit_single)
    then have "takeWhile isDigitChar (rest s) = []"
      by (cases "rest s") auto
    with False show ?thesis
      by (subst digits_loop.simps) (simp add: skip_0)
  qed
qed

lemma isAlphaNumeric_single: "isAlphaNumeric [c] = isAlphaNumericChar c"
  by (simp add: isAlphaNumeric_def isAlphaNumericChar_def isAlpha_single isDigit_single)

lemma identifier_loop_eq:
  "identifier_loop s = skip (length (takeWhile isAlphaNumericChar (rest s))) s"
proof (induction s rule: identifier_loop.induct)
  case (1 s)
  show ?case
  proof (cases "isAlphaNumeric (peek s)")
    case True
    then have inside: "current s < length (source s)" by (rule isAlphaNumeric_peek_inside)
    with True have d: "isAlphaNumericChar (source s ! current s)"
      by (simp add: peek_inside isAlphaNumeric_single)
    have "identifier_loop s = identifier_loop (snd (advance s))"
      using True by (subst identifier_loop.simps) simp
    also have "\<dots> = skip (length (takeWhile isAlphaNumericChar (rest (skip 1 s)))) (skip 1 s)"
      using "1.IH" [OF True] by (simp add: snd_advance)
    finally show ?thesis
      using d by (simp add: rest_Cons [OF inside] skip_skip)
  next
    case False
    have "\<not> isAlphaNumeric NUL"
      using isAlpha_NUL isDigit_NUL by (simp add: isAlphaNumeric_def)
    with False have "takeWhile isAlphaNumericChar (rest s) = []"
      by (cases "rest s") (auto simp: peek_rest isAlphaNumeric_single)
    with False show ?thesis
      by (subst identifier_loop.simps) (simp add: skip_0)
  qed
qed

lemma comment_loop_eq:
  "comment_loop s = skip (length (takeWhile (\<lambda>c. c \<noteq> CHR 0x0A) (rest s))) s"
proof (induction s rule: comment_loop.induct)
  case (1 s)
  show ?case
  proof (cases "peek s \<noteq> NEWLINE \<and> \<not> isAtEnd s")
    case True
    then have inside: "current s < length (source s)" by (simp add: isAtEnd_def)
    with True have d: "source s ! current s \<noteq> CHR 0x0A"
      by (simp add: peek_inside NEWLINE_def)
    have "comment_loop s = comment_loop (snd (advance s))"
      using True by (subst comment_loop.simps) simp
    also have "\<dots> = skip (length (takeWhile (\<lambda>c. c \<noteq> CHR 0x0A) (rest (skip 1 s)))) (skip 1 s)"
      using "1.IH" [OF True] by (simp add: snd_advance)
    finally show ?thesis
      using d by (simp add: rest_Cons [OF inside] skip_skip)
  next
    case False
    then have "takeWhile (\<lambda>c. c \<noteq> CHR 0x0A) (rest s) = []"
      by (cases "current s < length (source s)")
         (auto simp: isAtEnd_def peek_inside NEWLINE_def rest_Cons rest_Nil)
    moreover have "comment_loop s = s"
      using False by (subst comment_loop.simps) auto
    ultimately show ?thesis by (simp add: skip_0)
  qed
qed

lemma string_loop_eq:
  "string_loop s =
     (skip (length (takeWhile (\<lambda>c. c \<noteq> CHR 0x22) (rest s))) s)
       \<lparr>line := line s + newlines (takeWhile (\<lambda>c. c \<noteq> CHR 0x22) (rest s))\<rparr>"
proof (induction s rule: string_loop.induct)
  case (1 s)
  let ?body = "\<lambda>s. takeWhile (\<lambda>c. c \<noteq> CHR 0x22) (rest s)"
  show ?case
  proof (cases "peek s \<noteq> DQUOTE \<and> \<not> isAtEnd s")
    case True
    then have inside: "current s < length (source s)" by (simp add: isAtEnd_def)
    with True have d: "source s ! current s \<noteq> CHR 0x22"
      by (simp add: peek_inside DQUOTE_def)
    define s1 where
      "s1 = snd (advance (if peek s = NEWLINE then s\<lparr>line := line s + 1\<rparr> else s))"
    have f1: "source s1 = source s" "current s1 = Suc (current s)" "start s1 = start s"
      "tokens s1 = tokens s" "reports s1 = reports s" "Scanner.more s1 = Scanner.more s"
      by (simp_all add: s1_def advance_def)
    have l1: "line s1 = line s + newlines [source s ! current s]"
      using inside by (simp add: s1_def peek_inside NEWLINE_def newlines_def advance_def)
    have r1: "rest s1 = rest (skip 1 s)"
      by (simp add: rest_def skip_def f1)
    have "string_loop s = string_loop s1"
      using True by (subst string_loop.simps) (simp add: s1_def)
    also have "\<dots> = (skip (length (?body s1)) s1) \<lparr>line := line s1 + newlines (?body s1)\<rparr>"
      using "1.IH" [OF True] by (simp only: s1_def)
    also have "\<dots> = (skip (length (?body s)) s) \<lparr>line := line s + newlines (?body s)\<rparr>"
      using d
      by (intro Scanner.equality)
         (simp_all add: r1 l1 f1 rest_Cons [OF inside] skip_def newlines_def)
    finally show ?thesis .
  next
    case False
    then have "?body s = []"
      by (cases "current s < length (source s)")
         (auto simp: isAtEnd_def peek_inside DQUOTE_def rest_Cons rest_Nil)
    moreover have "string_loop s = s"
      using False by (subst string_loop.simps) auto
    ultimately show ?thesis by (simp add: skip_0 newlines_def)
  qed
qed

subsection \<open>One case per branch of the dispatch\<close>

lemma scanToken_cases [consumes 1, case_names one two comment blank newline str num ident other]:
  assumes inside: "current s < length (source s)"
    and one: "\<And>ty. ty \<noteq> EOF \<Longrightarrow> source s ! current s \<noteq> CHR 0x0A \<Longrightarrow>
                P (addToken ty Null (skip 1 s))"
    and two: "\<And>ty. ty \<noteq> EOF \<Longrightarrow> source s ! current s \<noteq> CHR 0x0A \<Longrightarrow>
                peek (skip 1 s) = ''='' \<Longrightarrow> P (addToken ty Null (skip 2 s))"
    and comment: "source s ! current s = CHR ''/'' \<Longrightarrow> peek (skip 1 s) = ''/'' \<Longrightarrow>
                P (comment_loop (skip 2 s))"
    and blank: "source s ! current s \<in> {CHR '' '', CHR 0x0D, CHR 0x09} \<Longrightarrow> P (skip 1 s)"
    and newline: "source s ! current s = CHR 0x0A \<Longrightarrow> P ((skip 1 s)\<lparr>line := line s + 1\<rparr>)"
    and str: "source s ! current s = CHR 0x22 \<Longrightarrow> P (string_scan (skip 1 s))"
    and num: "isDigitChar (source s ! current s) \<Longrightarrow> P (number (skip 1 s))"
    and ident: "isAlphaChar (source s ! current s) \<Longrightarrow> P (identifier_scan (skip 1 s))"
    and other: "source s ! current s \<noteq> CHR 0x0A \<Longrightarrow>
                P (Lox_error (line s) ''Unexpected character.'' (skip 1 s))"
  shows "P (scanToken s)"
proof -
  have adv: "advance s = ([source s ! current s], skip 1 s)"
    using inside by (simp add: advance_def charAt_def skip_def)
  have m: "match e (skip 1 s) = (if peek (skip 1 s) \<noteq> e then (False, skip 1 s) else (True, skip 2 s))" for e
    by (simp add: match_def skip_def)
  have l: "line (skip 1 s) = line s" by (simp add: skip_def)
  show ?thesis
    unfolding scanToken_def adv
    using one two comment blank newline str num ident other
    by (simp add: m isDigit_single isAlpha_single CR_def TAB_def NEWLINE_def DQUOTE_def l
          del: One_nat_def)
qed

subsection \<open>Every branch meets the step specification\<close>

lemma skip_simps [simp]:
  "source (skip n s) = source s" "current (skip n s) = current s + n"
  "start (skip n s) = start s" "line (skip n s) = line s"
  "tokens (skip n s) = tokens s" "reports (skip n s) = reports s"
  by (simp_all add: skip_def)

lemma rest_skip: "rest (skip n s) = drop n (rest s)"
  by (simp add: rest_def add.commute)

lemma length_rest: "length (rest s) = length (source s) - current s"
  by (simp add: rest_def)

lemma substring_take_drop:
  "a \<le> b \<Longrightarrow> b \<le> length str \<Longrightarrow> substring str a b = take (b - a) (drop a str)"
  by (simp add: substring_def Let_def min_absorb1 max_absorb2)

lemma addToken_simps [simp]:
  "source (addToken ty lit s) = source s" "current (addToken ty lit s) = current s"
  "start (addToken ty lit s) = start s" "line (addToken ty lit s) = line s"
  "reports (addToken ty lit s) = reports s"
  "tokens (addToken ty lit s) = tokens s @
     [\<lparr>ttype = ty, lexeme = substring (source s) (start s) (current s),
       literal = lit, tline = line s\<rparr>]"
  by (simp_all add: addToken_def)

lemma Lox_error_simps [simp]:
  "source (Lox_error l m s) = source s" "current (Lox_error l m s) = current s"
  "start (Lox_error l m s) = start s" "line (Lox_error l m s) = line s"
  "tokens (Lox_error l m s) = tokens s" "reports (Lox_error l m s) = reports s @ [(l, m)]"
  by (simp_all add: Lox_error_def)

lemma newlines_simps [simp]:
  "newlines [] = 0" "newlines (c # cs) = (if c = CHR 0x0A then 1 else 0) + newlines cs"
  "newlines (xs @ ys) = newlines xs + newlines ys"
  by (simp_all add: newlines_def)

lemma newlines_none: "CHR 0x0A \<notin> set xs \<Longrightarrow> newlines xs = 0"
  by (induction xs) auto

lemma newlines_takeWhile: "\<not> p (CHR 0x0A) \<Longrightarrow> newlines (takeWhile p xs) = 0"
  by (rule newlines_none) (auto dest: set_takeWhileD)

lemma step_token:
  assumes "start s = current s" "0 < n" "current s + n \<le> length (source s)"
    "ty \<noteq> EOF" "newlines (take n (rest s)) = 0"
  shows "step_spec s (addToken ty lit (skip n s))"
  using assms
  by (auto simp: step_spec_def consumed_def substring_take_drop rest_def)

lemma step_one:
  assumes "current s < length (source s)" "start s = current s" "ty \<noteq> EOF"
    "source s ! current s \<noteq> CHR 0x0A"
  shows "step_spec s (addToken ty Null (skip 1 s))"
  using assms by (intro step_token) (simp_all add: rest_Cons)

lemma step_two:
  assumes "current s < length (source s)" "start s = current s" "ty \<noteq> EOF"
    "source s ! current s \<noteq> CHR 0x0A" "peek (skip 1 s) = ''=''"
  shows "step_spec s (addToken ty Null (skip 2 s))"
proof -
  have in2: "current (skip 1 s) < length (source (skip 1 s))"
    using assms(5) by (auto simp: peek_def isAtEnd_def NUL_def split: if_splits)
  then have "source s ! (current s + 1) = CHR ''=''"
    using assms(5) by (simp add: peek_inside)
  moreover have "rest s = source s ! current s # source s ! (current s + 1) # rest (skip 2 s)"
    using in2 by (simp add: rest_def Cons_nth_drop_Suc)
  ultimately have "rest s = source s ! current s # CHR ''='' # rest (skip 2 s)"
    by simp
  then show ?thesis
    using assms in2 by (intro step_token) simp_all
qed

lemma step_blank:
  assumes "current s < length (source s)"
    "source s ! current s \<in> {CHR '' '', CHR 0x0D, CHR 0x09}"
  shows "step_spec s (skip 1 s)"
  using assms
  by (auto simp: step_spec_def consumed_def rest_Cons discardable_def CR_def TAB_def)

lemma step_newline:
  assumes "current s < length (source s)" "source s ! current s = CHR 0x0A"
  shows "step_spec s ((skip 1 s)\<lparr>line := line s + 1\<rparr>)"
  using assms
  by (auto simp: step_spec_def consumed_def rest_Cons discardable_def NEWLINE_def)

lemma step_other:
  assumes "current s < length (source s)" "source s ! current s \<noteq> CHR 0x0A"
  shows "step_spec s (Lox_error (line s) msg (skip 1 s))"
  using assms
  by (auto simp: step_spec_def consumed_def rest_Cons)

lemma peekNext_skip: "peekNext s = peek (skip 1 s)"
  by (simp add: peekNext_def peek_def isAtEnd_def)

lemma peek_Cons: "rest s = c # cs \<Longrightarrow> peek s = [c]"
  by (simp add: peek_rest)

lemma peek_Nil: "rest s = [] \<Longrightarrow> peek s = NUL"
  by (simp add: peek_rest)

lemma number_text_prefix: "take (length (number_text xs)) xs = number_text xs"
proof -
  let ?ds = "takeWhile isDigitChar xs"
  have tk: "take (length ?ds) xs = ?ds"
    by (simp add: takeWhile_eq_take [symmetric])
  show ?thesis
  proof (cases "dropWhile isDigitChar xs")
    case Nil
    show ?thesis by (simp add: number_text_def Nil tk)
  next
    case (Cons c r1)
    note c = this
    show ?thesis
    proof (cases r1)
      case Nil
      show ?thesis by (simp add: number_text_def c Nil tk)
    next
      case (Cons d r)
      show ?thesis
      proof (cases "c = CHR ''.'' \<and> isDigitChar d")
        case True
        let ?fs = "takeWhile isDigitChar (d # r)"
        have "?ds @ dropWhile isDigitChar xs = xs" by simp
        then have xs: "xs = ?ds @ CHR ''.'' # d # r"
          using c Cons True by simp
        have "take (length ?ds + (1 + length ?fs)) (?ds @ CHR ''.'' # d # r)
            = ?ds @ CHR ''.'' # take (length ?fs) (d # r)"
          by simp
        also have "take (length ?fs) (d # r) = ?fs"
          by (simp add: takeWhile_eq_take [symmetric])
        finally have "take (length ?ds + (1 + length ?fs)) xs = ?ds @ CHR ''.'' # ?fs"
          using xs by simp
        moreover have "number_text xs = ?ds @ CHR ''.'' # ?fs"
          using True by (simp add: number_text_def c Cons)
        ultimately show ?thesis by simp
      next
        case False
        then have "number_text xs = ?ds"
          by (auto simp add: number_text_def c Cons)
        then show ?thesis by (simp add: tk)
      qed
    qed
  qed
qed

lemma number_text_length: "length (number_text xs) \<le> length xs"
proof -
  have "length (take (length (number_text xs)) xs) = length (number_text xs)"
    by (simp only: number_text_prefix)
  then show ?thesis by simp
qed

lemma number_eq:
  "number s =
     addToken NUMBER
       (Num (parseFloat (substring (source s) (start s)
                           (current s + length (number_text (rest s))))))
       (skip (length (number_text (rest s))) s)"
proof -
  let ?ds = "takeWhile isDigitChar (rest s)"
  let ?s1 = "skip (length ?ds) s"
  define F where
    "F s2 = addToken NUMBER
       (Num (parseFloat (substring (source s2) (start s2) (current s2)))) s2" for s2
  have F: "F (skip k s) = addToken NUMBER
       (Num (parseFloat (substring (source s) (start s) (current s + k)))) (skip k s)" for k
    by (simp add: F_def)
  have r1: "rest ?s1 = dropWhile isDigitChar (rest s)"
    by (simp add: rest_skip dropWhile_eq_drop)
  have "number s = F (if peek (digits_loop s) = ''.'' \<and> isDigit (peekNext (digits_loop s))
                then digits_loop (snd (advance (digits_loop s))) else digits_loop s)"
    by (simp add: number_def F_def Let_def)
  also have "digits_loop s = ?s1" by (rule digits_loop_eq)
  finally have n: "number s = F (if peek ?s1 = ''.'' \<and> isDigit (peekNext ?s1)
                then digits_loop (skip 1 ?s1) else ?s1)"
    by (simp only: snd_advance)
  show ?thesis
  proof (cases "dropWhile isDigitChar (rest s)")
    case Nil
    then have "peek ?s1 = NUL" using r1 by (simp add: peek_Nil)
    then have "number s = F ?s1"
      unfolding n by (simp add: NUL_def)
    then show ?thesis
      by (simp add: F number_text_def Nil)
  next
    case (Cons c r)
    note c = this
    then have p: "peek ?s1 = [c]" using r1 by (simp add: peek_Cons)
    show ?thesis
    proof (cases r)
      case Nil
      then have "peekNext ?s1 = NUL"
        using r1 c by (simp add: peekNext_skip peek_Nil rest_skip)
      then have "number s = F ?s1"
        unfolding n using isDigit_NUL by simp
      then show ?thesis
        by (simp add: F number_text_def c Nil)
    next
      case (Cons d r2)
      then have pn: "peekNext ?s1 = [d]"
        using r1 c by (simp add: peekNext_skip rest_skip peek_Cons)
      have r2: "rest (skip 1 ?s1) = d # r2"
        using r1 c Cons by (simp add: rest_skip)
      show ?thesis
      proof (cases "c = CHR ''.'' \<and> isDigitChar d")
        case True
        then have "number s = F (digits_loop (skip 1 ?s1))"
          unfolding n p pn by (simp add: isDigit_single)
        also have "digits_loop (skip 1 ?s1)
            = skip (length (takeWhile isDigitChar (d # r2))) (skip 1 ?s1)"
          by (simp only: digits_loop_eq r2)
        also have "\<dots> = skip (length ?ds + (1 + length (takeWhile isDigitChar (d # r2)))) s"
          by (simp only: skip_skip add.assoc)
        finally show ?thesis
          using True by (simp add: F number_text_def c Cons)
      next
        case False
        then have "number s = F ?s1"
          unfolding n p pn by (auto simp add: isDigit_single)
        then show ?thesis
          using False by (auto simp add: F number_text_def c Cons)
      qed
    qed
  qed
qed

lemma identifier_eq:
  "identifier_scan s =
     addToken
       (case map_of KEYWORDS
               (substring (source s) (start s)
                  (current s + length (identifier_text (rest s)))) of
          None \<Rightarrow> IDENTIFIER | Some ty \<Rightarrow> ty)
       Null (skip (length (identifier_text (rest s))) s)"
  by (simp add: identifier_scan_def identifier_loop_eq identifier_text_def Let_def)

lemma takeWhile_all_length:
  "(length (takeWhile p xs) = length xs) = (\<forall>x\<in>set xs. p x)"
proof
  assume "length (takeWhile p xs) = length xs"
  then have "takeWhile p xs = xs"
    by (metis takeWhile_eq_take take_all order_refl)
  then show "\<forall>x\<in>set xs. p x" by (simp add: takeWhile_eq_all_conv)
next
  assume "\<forall>x\<in>set xs. p x"
  then have "takeWhile p xs = xs" by (simp add: takeWhile_eq_all_conv)
  then show "length (takeWhile p xs) = length xs" by (rule arg_cong)
qed

lemma isAtEnd_after_run:
  "isAtEnd (skip (length (takeWhile p (rest s))) s) = (\<forall>x\<in>set (rest s). p x)"
proof (cases "current s \<le> length (source s)")
  case True
  have "length (takeWhile p (rest s)) \<le> length (rest s)"
    by (rule length_takeWhile_le)
  then have "isAtEnd (skip (length (takeWhile p (rest s))) s)
      = (length (takeWhile p (rest s)) = length (rest s))"
    using True by (auto simp: isAtEnd_def length_rest)
  then show ?thesis by (simp only: takeWhile_all_length)
next
  case False
  then show ?thesis by (simp add: isAtEnd_def rest_def)
qed

lemma string_scan_unterminated:
  assumes "CHR 0x22 \<notin> set (rest s)"
  shows "string_scan s =
     Lox_error (line s + newlines (rest s)) ''unexpected character.''
       ((skip (length (rest s)) s)\<lparr>line := line s + newlines (rest s)\<rparr>)"
proof -
  have all: "\<forall>x\<in>set (rest s). x \<noteq> CHR 0x22" using assms by auto
  then have b: "takeWhile (\<lambda>c. c \<noteq> CHR 0x22) (rest s) = rest s"
    by (simp add: takeWhile_eq_all_conv)
  have "isAtEnd (string_loop s)"
    using isAtEnd_after_run [of "\<lambda>c. c \<noteq> CHR 0x22" s] all
    by (simp add: string_loop_eq isAtEnd_def)
  then show ?thesis
    by (simp add: string_scan_def Let_def) (simp add: string_loop_eq b)
qed

lemma string_scan_terminated:
  assumes "CHR 0x22 \<in> set (rest s)"
  shows "string_scan s =
     addToken STRING
       (Str (substring (source s) (start s + 1) (current s + length (string_body (rest s)))))
       ((skip (length (string_body (rest s)) + 1) s)
          \<lparr>line := line s + newlines (string_body (rest s))\<rparr>)"
proof -
  have "\<not> (\<forall>x\<in>set (rest s). x \<noteq> CHR 0x22)" using assms by auto
  then have "\<not> isAtEnd (string_loop s)"
    using isAtEnd_after_run [of "\<lambda>c. c \<noteq> CHR 0x22" s]
    by (simp add: string_loop_eq isAtEnd_def)
  then show ?thesis
    by (simp add: string_scan_def Let_def)
       (simp add: string_loop_eq string_body_def advance_def addToken_def skip_def)
qed

lemma comment_eq: "comment_loop s = skip (length (comment_text (rest s))) s"
  by (simp add: comment_loop_eq comment_text_def)

lemma step_specI_token:
  assumes "source s' = source s" "current s' = current s + n" "0 < n"
    "current s + n \<le> length (source s)" "line s' = line s + newlines (take n (rest s))"
    "reports s' = reports s" "ty \<noteq> EOF" "ty = STRING \<or> newlines (take n (rest s)) = 0"
    "tokens s' = tokens s @
       [\<lparr>ttype = ty, lexeme = take n (rest s), literal = lit, tline = line s'\<rparr>]"
  shows "step_spec s s'"
  using assms by (auto simp: step_spec_def consumed_def)

lemma rest_Cons2:
  assumes "current s < length (source s)" "peek (skip 1 s) = [d]" "d \<noteq> CHR 0x00"
  shows "rest s = source s ! current s # d # rest (skip 2 s)"
    and "current s + 2 \<le> length (source s)"
proof -
  have in2: "current s + 1 < length (source s)"
    using assms(2,3) by (auto simp: peek_def isAtEnd_def NUL_def split: if_splits)
  then show "current s + 2 \<le> length (source s)" by simp
  have "source s ! (current s + 1) = d"
    using assms(2) in2 by (simp add: peek_inside)
  moreover have "rest s = source s ! current s # source s ! (current s + 1) # rest (skip 2 s)"
    using in2 by (simp add: rest_def Cons_nth_drop_Suc)
  ultimately show "rest s = source s ! current s # d # rest (skip 2 s)" by simp
qed

lemma step_comment:
  assumes "current s < length (source s)" "source s ! current s = CHR ''/''"
    "peek (skip 1 s) = ''/''"
  shows "step_spec s (comment_loop (skip 2 s))"
proof -
  let ?r = "rest (skip 2 s)"
  have r: "rest s = CHR ''/'' # CHR ''/'' # ?r" and b: "current s + 2 \<le> length (source s)"
    using rest_Cons2 [OF assms(1,3)] assms(2) by simp_all
  have k: "length (comment_text ?r) \<le> length (source s) - (current s + 2)"
    using length_takeWhile_le [of "\<lambda>c. c \<noteq> CHR 0x0A" ?r]
    by (simp add: comment_text_def length_rest)
  have t: "take (length (comment_text ?r)) ?r = comment_text ?r"
    by (simp add: comment_text_def takeWhile_eq_take [symmetric])
  have nl: "CHR 0x0A \<notin> set (comment_text ?r)"
    by (auto simp: comment_text_def dest: set_takeWhileD)
  have c: "consumed s (skip (length (comment_text ?r)) (skip 2 s))
      = CHR ''/'' # CHR ''/'' # comment_text ?r"
    by (simp add: consumed_def r t)
  show ?thesis
    unfolding comment_eq step_spec_def c
    using b k nl by (simp add: discardable_def newlines_none)
qed

lemma step_number:
  assumes "current s < length (source s)" "start s = current s"
    "isDigitChar (source s ! current s)"
  shows "step_spec s (number (skip 1 s))"
proof -
  let ?r = "rest (skip 1 s)"
  let ?n = "length (number_text ?r)"
  have r: "rest s = source s ! current s # ?r"
    using assms(1) by (rule rest_Cons)
  have "set (number_text ?r) \<subseteq> {c. isDigitChar c} \<union> {CHR ''.''}"
    by (auto simp: number_text_def Let_def split: list.splits if_splits dest: set_takeWhileD)
  moreover have "\<not> isDigitChar (CHR 0x0A)" by (simp add: isDigitChar_def)
  ultimately have nl: "CHR 0x0A \<notin> set (number_text ?r)" by auto
  have b: "?n \<le> length (source s) - (current s + 1)"
    using number_text_length [of ?r] by (simp add: length_rest)
  have t: "take (?n + 1) (rest s) = source s ! current s # number_text ?r"
    by (subst r) (simp add: number_text_prefix)
  have nl': "source s ! current s \<noteq> CHR 0x0A"
    using assms(3) by (auto simp: isDigitChar_def)
  have n0: "newlines (take (?n + 1) (rest s)) = 0"
    unfolding t using nl nl' by (simp add: newlines_none)
  have sub: "substring (source s) (start s) (current s + 1 + ?n) = take (?n + 1) (rest s)"
    using assms(1,2) b by (simp add: substring_take_drop rest_def)
  let ?s' = "addToken NUMBER
       (Num (parseFloat (substring (source s) (start s) (current s + 1 + ?n))))
       (skip ?n (skip 1 s))"
  have "step_spec s ?s'"
  proof (rule step_specI_token [where n = "?n + 1" and ty = NUMBER])
    show "current s + (?n + 1) \<le> length (source s)" using assms(1) b by simp
    show "line ?s' = line s + newlines (take (?n + 1) (rest s))" using n0 by simp
    show "tokens ?s' = tokens s @
       [\<lparr>ttype = NUMBER, lexeme = take (?n + 1) (rest s),
         literal = Num (parseFloat (substring (source s) (start s) (current s + 1 + ?n))),
         tline = line ?s'\<rparr>]"
      using sub by simp
  qed (use n0 in simp_all)
  then show ?thesis
    by (simp add: number_eq)
qed

lemma KEYWORDS_not_EOF: "map_of KEYWORDS x = Some ty \<Longrightarrow> ty \<noteq> EOF"
  by (auto simp: KEYWORDS_def split: if_splits)

lemma step_identifier:
  assumes "current s < length (source s)" "start s = current s"
    "isAlphaChar (source s ! current s)"
  shows "step_spec s (identifier_scan (skip 1 s))"
proof -
  let ?r = "rest (skip 1 s)"
  let ?n = "length (identifier_text ?r)"
  have r: "rest s = source s ! current s # ?r"
    using assms(1) by (rule rest_Cons)
  have "\<not> isAlphaNumericChar (CHR 0x0A)"
    by (simp add: isAlphaNumericChar_def isAlphaChar_def isDigitChar_def)
  then have nl: "CHR 0x0A \<notin> set (identifier_text ?r)"
    by (auto simp: identifier_text_def dest: set_takeWhileD)
  have b: "?n \<le> length (source s) - (current s + 1)"
    using length_takeWhile_le [of isAlphaNumericChar ?r]
    by (simp add: length_rest identifier_text_def)
  have t: "take (?n + 1) (rest s) = source s ! current s # identifier_text ?r"
    by (subst r) (simp add: identifier_text_def takeWhile_eq_take [symmetric])
  have nl': "source s ! current s \<noteq> CHR 0x0A"
    using assms(3) by (auto simp: isAlphaChar_def)
  have n0: "newlines (take (?n + 1) (rest s)) = 0"
    unfolding t using nl nl' by (simp add: newlines_none)
  have sub: "substring (source s) (start s) (current s + 1 + ?n) = take (?n + 1) (rest s)"
    using assms(1,2) b by (simp add: substring_take_drop rest_def)
  define ty where "ty = (case map_of KEYWORDS
               (substring (source s) (start s) (current s + 1 + ?n)) of
          None \<Rightarrow> IDENTIFIER | Some ty \<Rightarrow> ty)"
  have ty: "ty \<noteq> EOF"
    by (auto simp: ty_def dest: KEYWORDS_not_EOF split: option.splits)
  let ?s' = "addToken ty Null (skip ?n (skip 1 s))"
  have "step_spec s ?s'"
  proof (rule step_specI_token [where n = "?n + 1" and ty = ty])
    show "current s + (?n + 1) \<le> length (source s)" using assms(1) b by simp
    show "line ?s' = line s + newlines (take (?n + 1) (rest s))" using n0 by simp
    show "tokens ?s' = tokens s @
       [\<lparr>ttype = ty, lexeme = take (?n + 1) (rest s), literal = Null,
         tline = line ?s'\<rparr>]"
      using sub by simp
  qed (use n0 in \<open>simp_all add: ty\<close>)
  then show ?thesis
    by (simp add: identifier_eq ty_def)
qed

lemma string_body_split:
  assumes "CHR 0x22 \<in> set xs"
  shows "\<exists>more. xs = string_body xs @ CHR 0x22 # more"
proof -
  have "dropWhile (\<lambda>c. c \<noteq> CHR 0x22) xs \<noteq> []"
    using assms by (auto simp: dropWhile_eq_Nil_conv)
  then obtain d more where d: "dropWhile (\<lambda>c. c \<noteq> CHR 0x22) xs = d # more"
    by (cases "dropWhile (\<lambda>c. c \<noteq> CHR 0x22) xs") auto
  then have "d = CHR 0x22"
    using hd_dropWhile [of "\<lambda>c. c \<noteq> CHR 0x22" xs] by auto
  with d have "xs = string_body xs @ CHR 0x22 # more"
    using takeWhile_dropWhile_id [of "\<lambda>c. c \<noteq> CHR 0x22" xs]
    by (simp add: string_body_def)
  then show ?thesis ..
qed

lemma step_string:
  assumes "current s < length (source s)" "start s = current s"
    "source s ! current s = CHR 0x22"
  shows "step_spec s (string_scan (skip 1 s))"
proof -
  let ?r = "rest (skip 1 s)"
  have r: "rest s = CHR 0x22 # ?r"
    using rest_Cons [OF assms(1)] assms(3) by simp
  have lr: "length ?r = length (source s) - (current s + 1)"
    by (simp add: length_rest)
  show ?thesis
  proof (cases "CHR 0x22 \<in> set ?r")
    case False
    let ?s' = "Lox_error (line s + newlines ?r) ''unexpected character.''
       ((skip (length ?r) (skip 1 s))\<lparr>line := line s + newlines ?r\<rparr>)"
    have cur: "current ?s' = length (source s)"
      using assms(1) lr by simp
    then have c: "consumed s ?s' = rest s"
      by (simp add: consumed_def rest_def)
    have "step_spec s ?s'"
      unfolding step_spec_def c cur using assms(1) by (simp add: r)
    then show ?thesis
      using string_scan_unterminated [OF False] by simp
  next
    case True
    let ?b = "string_body ?r"
    obtain more where m: "?r = ?b @ CHR 0x22 # more"
      using string_body_split [OF True] by blast
    have "length ?r = length ?b + 1 + length more"
      by (subst m) simp
    then have b: "current s + (length ?b + 2) \<le> length (source s)"
      using lr by simp
    have "rest s = CHR 0x22 # ?b @ CHR 0x22 # more"
      using r m by simp
    then have t: "take (length ?b + 2) (rest s) = CHR 0x22 # ?b @ [CHR 0x22]"
      by simp
    have sub: "substring (source s) (start s) (current s + 1 + (length ?b + 1))
        = take (length ?b + 2) (rest s)"
      using assms(1,2) b by (simp add: substring_take_drop rest_def)
    let ?s' = "addToken STRING
       (Str (substring (source s) (start s + 1) (current s + 1 + length ?b)))
       ((skip (length ?b + 1) (skip 1 s))\<lparr>line := line s + newlines ?b\<rparr>)"
    have "step_spec s ?s'"
    proof (rule step_specI_token [where n = "length ?b + 2" and ty = STRING])
      show "current s + (length ?b + 2) \<le> length (source s)" by (rule b)
      show "line ?s' = line s + newlines (take (length ?b + 2) (rest s))"
        unfolding t by simp
      show "tokens ?s' = tokens s @
         [\<lparr>ttype = STRING, lexeme = take (length ?b + 2) (rest s),
           literal = Str (substring (source s) (start s + 1) (current s + 1 + length ?b)),
           tline = line ?s'\<rparr>]"
        using sub by simp
    qed simp_all
    then show ?thesis
      using string_scan_terminated [OF True] by simp
  qed
qed

lemma scanToken_step:
  assumes "current s < length (source s)" "start s = current s"
  shows "step_spec s (scanToken s)"
  using assms(1)
proof (cases rule: scanToken_cases)
  case (one ty)
  then show "step_spec s (addToken ty Null (skip 1 s))"
    using assms by (intro step_one)
next
  case (two ty)
  then show "step_spec s (addToken ty Null (skip 2 s))"
    using assms by (intro step_two)
next
  case comment
  then show "step_spec s (comment_loop (skip 2 s))"
    using assms by (intro step_comment)
next
  case blank
  then show "step_spec s (skip 1 s)"
    using assms by (intro step_blank)
next
  case newline
  then show "step_spec s ((skip 1 s)\<lparr>line := line s + 1\<rparr>)"
    using assms by (intro step_newline)
next
  case str
  then show "step_spec s (string_scan (skip 1 s))"
    using assms by (intro step_string)
next
  case num
  then show "step_spec s (number (skip 1 s))"
    using assms by (intro step_number)
next
  case ident
  then show "step_spec s (identifier_scan (skip 1 s))"
    using assms by (intro step_identifier)
next
  case other
  then show "step_spec s (Lox_error (line s) ''Unexpected character.'' (skip 1 s))"
    using assms by (intro step_other)
qed

subsection \<open>The main loop terminates\<close>

lemma start_update_simps [simp]:
  "rest (s\<lparr>start := k\<rparr>) = rest s"
  by (simp add: rest_def)

lemma step_spec_start: "step_spec (s\<lparr>start := k\<rparr>) s' = step_spec s s'"
  by (simp add: step_spec_def consumed_def)

lemma scanToken_advances:
  assumes "\<not> isAtEnd s"
  shows "step_spec s (scanToken (s\<lparr>start := current s\<rparr>))"
proof -
  let ?s0 = "s\<lparr>start := current s\<rparr>"
  have "step_spec ?s0 (scanToken ?s0)"
    using assms by (intro scanToken_step) (simp_all add: isAtEnd_def)
  then show ?thesis
    by (simp only: step_spec_start)
qed

termination scanTokens_loop
proof (relation "measure (\<lambda>s. length (source s) - current s)")
  fix s assume "\<not> isAtEnd s"
  then have "step_spec s (scanToken (s\<lparr>start := current s\<rparr>))"
    by (rule scanToken_advances)
  then show "(scanToken (s\<lparr>start := current s\<rparr>), s)
      \<in> measure (\<lambda>s. length (source s) - current s)"
    by (auto simp: step_spec_def)
qed simp

declare scanTokens_loop.simps [simp del]

lemma segsText_simps [simp]:
  "segsText [] = []" "segsText (g # gs) = segText g @ segsText gs"
  by (simp_all add: segsText_def)

subsection \<open>The main loop segments the input\<close>

lemma step_segment:
  assumes "step_spec s s'"
  shows "\<exists>g. segText g = consumed s s' \<and> segOk (line s) g \<and> segText g \<noteq> [] \<and>
     tokens s' = tokens s @ segTokens [g] \<and>
     length (reports s') = length (reports s) + rejected [g]"
proof -
  let ?x = "consumed s s'"
  have ne: "?x \<noteq> []"
    using assms by (auto simp: step_spec_def consumed_def rest_def)
  from assms consider
    (tok) ty lit where "ty \<noteq> EOF" "ty = STRING \<or> newlines ?x = 0" "reports s' = reports s"
      "tokens s' = tokens s @ [\<lparr>ttype = ty, lexeme = ?x, literal = lit, tline = line s'\<rparr>]"
    | (skip) "tokens s' = tokens s" "reports s' = reports s" "discardable ?x"
    | (err) msg where "tokens s' = tokens s" "reports s' = reports s @ [(line s', msg)]"
    unfolding step_spec_def by blast
  then show ?thesis
  proof cases
    case tok
    let ?g = "Lexeme \<lparr>ttype = ty, lexeme = ?x, literal = lit, tline = line s'\<rparr>"
    have "line s' = line s + newlines ?x" using assms by (simp add: step_spec_def)
    with tok ne have "segText ?g = ?x \<and> segOk (line s) ?g \<and> segText ?g \<noteq> [] \<and>
       tokens s' = tokens s @ segTokens [?g] \<and>
       length (reports s') = length (reports s) + rejected [?g]"
      by simp
    then show ?thesis ..
  next
    case skip
    with ne have "segText (Skipped ?x) = ?x \<and> segOk (line s) (Skipped ?x) \<and>
       segText (Skipped ?x) \<noteq> [] \<and>
       tokens s' = tokens s @ segTokens [Skipped ?x] \<and>
       length (reports s') = length (reports s) + rejected [Skipped ?x]"
      by simp
    then show ?thesis ..
  next
    case err
    with ne have "segText (Rejected ?x) = ?x \<and> segOk (line s) (Rejected ?x) \<and>
       segText (Rejected ?x) \<noteq> [] \<and>
       tokens s' = tokens s @ segTokens [Rejected ?x] \<and>
       length (reports s') = length (reports s) + rejected [Rejected ?x]"
      by simp
    then show ?thesis ..
  qed
qed

lemma segTokens_Cons: "segTokens (g # gs) = segTokens [g] @ segTokens gs"
  by (cases g) simp_all

lemma rejected_Cons: "rejected (g # gs) = rejected [g] + rejected gs"
  by (cases g) simp_all

lemma scanTokens_loop_segments:
  assumes "current s \<le> length (source s)"
  shows "\<exists>gs. segsText gs = rest s \<and> segsOk (line s) gs \<and>
     tokens (scanTokens_loop s) = tokens s @ segTokens gs \<and>
     length (reports (scanTokens_loop s)) = length (reports s) + rejected gs \<and>
     line (scanTokens_loop s) = line s + newlines (rest s) \<and>
     source (scanTokens_loop s) = source s \<and>
     current (scanTokens_loop s) = length (source s)"
  using assms
proof (induction s rule: scanTokens_loop.induct)
  case (1 s)
  show ?case
  proof (cases "isAtEnd s")
    case True
    then have "scanTokens_loop s = s" by (subst scanTokens_loop.simps) simp
    moreover have "rest s = []" "current s = length (source s)"
      using True "1.prems" by (simp_all add: isAtEnd_def rest_def)
    ultimately have "segsText [] = rest s \<and> segsOk (line s) [] \<and>
     tokens (scanTokens_loop s) = tokens s @ segTokens [] \<and>
     length (reports (scanTokens_loop s)) = length (reports s) + rejected [] \<and>
     line (scanTokens_loop s) = line s + newlines (rest s) \<and>
     source (scanTokens_loop s) = source s \<and>
     current (scanTokens_loop s) = length (source s)"
      by simp
    then show ?thesis ..
  next
    case False
    define s' where "s' = scanToken (s\<lparr>start := current s\<rparr>)"
    have loop: "scanTokens_loop s = scanTokens_loop s'"
      using False by (subst scanTokens_loop.simps) (simp add: s'_def)
    have step: "step_spec s s'"
      unfolding s'_def using False by (rule scanToken_advances)
    then have src: "source s' = source s" and cur: "current s < current s'"
      and bound: "current s' \<le> length (source s)"
      and ln: "line s' = line s + newlines (consumed s s')"
      by (simp_all add: step_spec_def)
    obtain g where g: "segText g = consumed s s'" "segOk (line s) g" "segText g \<noteq> []"
      "tokens s' = tokens s @ segTokens [g]"
      "length (reports s') = length (reports s) + rejected [g]"
      using step_segment [OF step] by blast
    have split: "rest s = consumed s s' @ rest s'"
      using cur by (simp add: consumed_def rest_def src) (metis add_diff_inverse_nat append_take_drop_id drop_drop less_imp_le_nat not_less add.commute)
    obtain gs where gs: "segsText gs = rest s'" "segsOk (line s') gs"
      "tokens (scanTokens_loop s') = tokens s' @ segTokens gs"
      "length (reports (scanTokens_loop s')) = length (reports s') + rejected gs"
      "line (scanTokens_loop s') = line s' + newlines (rest s')"
      "source (scanTokens_loop s') = source s'"
      "current (scanTokens_loop s') = length (source s')"
      using "1.IH" [OF False] bound unfolding s'_def [symmetric] src by blast
    have "segsText (g # gs) = rest s \<and> segsOk (line s) (g # gs) \<and>
     tokens (scanTokens_loop s) = tokens s @ segTokens (g # gs) \<and>
     length (reports (scanTokens_loop s)) = length (reports s) + rejected (g # gs) \<and>
     line (scanTokens_loop s) = line s + newlines (rest s) \<and>
     source (scanTokens_loop s) = source s \<and>
     current (scanTokens_loop s) = length (source s)"
      unfolding loop
      using g gs split ln src
      by (simp add: segTokens_Cons [of g gs] rejected_Cons [of g gs])
    then show ?thesis ..
  qed
qed

lemma rest_newScanner: "rest (newScanner src) = src"
  by (simp add: rest_def newScanner_def)

lemma scanTokens_segments:
  "\<exists>gs. segsText gs = src \<and> segsOk 1 gs \<and>
     fst (scanTokens (newScanner src)) = segTokens gs @
       [\<lparr>ttype = EOF, lexeme = [], literal = Null, tline = 1 + newlines src\<rparr>] \<and>
     length (reports (snd (scanTokens (newScanner src)))) = rejected gs"
proof -
  let ?s = "newScanner src"
  have "current ?s \<le> length (source ?s)" by (simp add: newScanner_def)
  then obtain gs where gs: "segsText gs = rest ?s" "segsOk (line ?s) gs"
     "tokens (scanTokens_loop ?s) = tokens ?s @ segTokens gs"
     "length (reports (scanTokens_loop ?s)) = length (reports ?s) + rejected gs"
     "line (scanTokens_loop ?s) = line ?s + newlines (rest ?s)"
    using scanTokens_loop_segments [of ?s] by blast
  have f: "tokens ?s = []" "reports ?s = []" "line ?s = 1"
    by (simp_all add: newScanner_def)
  have "segsText gs = src \<and> segsOk 1 gs \<and>
     fst (scanTokens ?s) = segTokens gs @
       [\<lparr>ttype = EOF, lexeme = [], literal = Null, tline = 1 + newlines src\<rparr>] \<and>
     length (reports (snd (scanTokens ?s))) = rejected gs"
    using gs by (simp add: f rest_newScanner scanTokens_def Let_def)
  then show ?thesis ..
qed

lemma segsOk_append:
  "segsOk l (pre @ post) = (segsOk l pre \<and> segsOk (l + newlines (segsText pre)) post)"
  by (induction pre arbitrary: l) (simp_all add: add.assoc)

lemma segsOk_tokens_not_EOF:
  "segsOk l gs \<Longrightarrow> t \<in> set (segTokens gs) \<Longrightarrow> ttype t \<noteq> EOF"
proof (induction gs arbitrary: l)
  case Nil
  then show ?case by simp
next
  case (Cons g gs)
  then show ?case by (cases g) auto
qed

lemma segsOk_token_lines:
  "segsOk l gs \<Longrightarrow> t \<in> set (segTokens gs) \<Longrightarrow>
     l \<le> tline t \<and> tline t \<le> l + newlines (segsText gs)"
proof (induction gs arbitrary: l)
  case Nil
  then show ?case by simp
next
  case (Cons g gs)
  show ?case
  proof (cases "t \<in> set (segTokens gs)")
    case True
    then have "l + newlines (segText g) \<le> tline t \<and>
        tline t \<le> l + newlines (segText g) + newlines (segsText gs)"
      using Cons.IH [of "l + newlines (segText g)"] Cons.prems(1) by simp
    then show ?thesis by simp
  next
    case False
    then have "g = Lexeme t"
      using Cons.prems(2) by (cases g) auto
    then show ?thesis using Cons.prems(1) by simp
  qed
qed

lemma segsOk_sorted: "segsOk l gs \<Longrightarrow> sorted (map tline (segTokens gs))"
proof (induction gs arbitrary: l)
  case Nil
  then show ?case by simp
next
  case (Cons g gs)
  from Cons.prems have rest_ok: "segsOk (l + newlines (segText g)) gs"
    by simp
  then have sorted_rest: "sorted (map tline (segTokens gs))"
    by (rule Cons.IH)
  show ?case
  proof (cases g)
    case (Lexeme t)
    then have "tline t = l + newlines (segText g)"
      using Cons.prems by simp
    then have "\<forall>u\<in>set (segTokens gs). tline t \<le> tline u"
      using segsOk_token_lines [OF rest_ok] by simp
    then show ?thesis
      using Lexeme sorted_rest by simp
  next
    case (Skipped x)
    then show ?thesis using sorted_rest by simp
  next
    case (Rejected x)
    then show ?thesis using sorted_rest by simp
  qed
qed

lemma rejected_none: "rejected gs = 0 \<Longrightarrow> Rejected x \<notin> set gs"
proof (induction gs)
  case Nil
  then show ?case by simp
next
  case (Cons g gs)
  then show ?case by (cases g) auto
qed

lemma segsOk_Skipped: "segsOk l gs \<Longrightarrow> Skipped x \<in> set gs \<Longrightarrow> discardable x"
proof (induction gs arbitrary: l)
  case Nil
  then show ?case by simp
next
  case (Cons g gs)
  then show ?case by (cases g) auto
qed

subsection \<open>The dispatch, branch by branch\<close>

text \<open>
  What \<^verbatim>\<open>scanToken\<close> returns when the input from the cursor on is \<open>c # r\<close>,
  for each class of the character \<open>c\<close>.
\<close>

lemma rest_ConsD:
  assumes "rest s = c # r"
  shows "current s < length (source s)" "source s ! current s = c" "rest (skip 1 s) = r"
proof -
  show inside: "current s < length (source s)"
    using assms by (cases "current s < length (source s)") (simp_all add: rest_def)
  from rest_Cons [OF inside] assms
  show "source s ! current s = c" "rest (skip 1 s) = r" by simp_all
qed

lemma advance_Cons: "rest s = c # r \<Longrightarrow> advance s = ([c], skip 1 s)"
  using rest_ConsD(1,2) [of s c r] by (simp add: advance_def charAt_def skip_def)

lemma match_rest:
  "e \<noteq> CHR 0x00 \<Longrightarrow> match [e] s = (if take 1 (rest s) = [e] then (True, skip 1 s) else (False, s))"
  by (cases "rest s") (auto simp: match_def peek_rest NUL_def skip_def)

lemma addToken_skip:
  assumes "start s = current s" "current s + n \<le> length (source s)"
  shows "addToken ty lit (skip n s) =
     s\<lparr>current := current s + n,
       tokens := tokens s @
         [\<lparr>ttype = ty, lexeme = take n (rest s), literal = lit, tline = line s\<rparr>]\<rparr>"
  using assms by (simp add: addToken_def skip_def substring_take_drop rest_def)

lemma scanToken_operator:
  assumes "rest s = c # r" "c \<in> {CHR ''!'', CHR ''='', CHR ''<'', CHR ''>''}"
  shows "scanToken s =
     (if take 1 r = ''='' then addToken (twoCharOperator c) Null (skip 2 s)
      else addToken (oneCharOperator c) Null (skip 1 s))"
proof -
  have m: "match ''='' (skip 1 s) =
      (if take 1 r = ''='' then (True, skip 2 s) else (False, skip 1 s))"
    using rest_ConsD(3) [OF assms(1)] by (simp add: match_rest skip_skip)
  from assms(2) consider "c = CHR ''!''" | "c = CHR ''=''" | "c = CHR ''<''" | "c = CHR ''>''"
    by blast
  then show ?thesis
  proof cases
    case 1
    then show ?thesis
      unfolding scanToken_def advance_Cons [OF assms(1)]
      by (simp add: m oneCharOperator_def twoCharOperator_def del: One_nat_def)
  next
    case 2
    then show ?thesis
      unfolding scanToken_def advance_Cons [OF assms(1)]
      by (simp add: m oneCharOperator_def twoCharOperator_def del: One_nat_def)
  next
    case 3
    then show ?thesis
      unfolding scanToken_def advance_Cons [OF assms(1)]
      by (simp add: m oneCharOperator_def twoCharOperator_def del: One_nat_def)
  next
    case 4
    then show ?thesis
      unfolding scanToken_def advance_Cons [OF assms(1)]
      by (simp add: m oneCharOperator_def twoCharOperator_def del: One_nat_def)
  qed
qed

lemma operator_dispatch:
  assumes "rest s = c # r" "c \<in> {CHR ''!'', CHR ''='', CHR ''<'', CHR ''>''}"
  shows "scanToken (s\<lparr>start := current s\<rparr>) =
     (if take 1 r = ''=''
      then s\<lparr>start := current s, current := current s + 2,
             tokens := tokens s @
               [\<lparr>ttype = twoCharOperator c, lexeme = [c, CHR ''=''], literal = Null,
                 tline = line s\<rparr>]\<rparr>
      else s\<lparr>start := current s, current := current s + 1,
             tokens := tokens s @
               [\<lparr>ttype = oneCharOperator c, lexeme = [c], literal = Null,
                 tline = line s\<rparr>]\<rparr>)"
proof -
  let ?s = "s\<lparr>start := current s\<rparr>"
  have r: "rest ?s = c # r" using assms(1) by simp
  have len: "length (rest s) = Suc (length r)" using assms(1) by simp
  then have b1: "current s + 1 \<le> length (source s)" by (simp add: length_rest)
  show ?thesis
  proof (cases "take 1 r = ''=''")
    case True
    then obtain r' where r': "r = CHR ''='' # r'" by (cases r) auto
    then have b2: "current s + 2 \<le> length (source s)"
      using len by (simp add: length_rest)
    have "scanToken ?s = addToken (twoCharOperator c) Null (skip 2 ?s)"
      using scanToken_operator [OF r assms(2)] True by simp
    also have "\<dots> = ?s\<lparr>current := current ?s + 2,
       tokens := tokens ?s @
         [\<lparr>ttype = twoCharOperator c, lexeme = take 2 (rest ?s), literal = Null,
           tline = line ?s\<rparr>]\<rparr>"
      using b2 by (intro addToken_skip) simp_all
    finally show ?thesis using True by (simp add: assms(1) r')
  next
    case False
    have "scanToken ?s = addToken (oneCharOperator c) Null (skip 1 ?s)"
      using scanToken_operator [OF r assms(2)] False by simp
    also have "\<dots> = ?s\<lparr>current := current ?s + 1,
       tokens := tokens ?s @
         [\<lparr>ttype = oneCharOperator c, lexeme = take 1 (rest ?s), literal = Null,
           tline = line ?s\<rparr>]\<rparr>"
      using b1 by (intro addToken_skip) simp_all
    finally show ?thesis using False by (simp add: assms(1))
  qed
qed

lemma scanToken_default:
  assumes "rest s = c # r" "c \<notin> set switchCases"
  shows "scanToken s =
     (if isDigitChar c then number (skip 1 s)
      else if isAlphaChar c then identifier_scan (skip 1 s)
      else Lox_error (line s) ''Unexpected character.'' (skip 1 s))"
  unfolding scanToken_def advance_Cons [OF assms(1)]
  using assms(2)
  by (simp add: switchCases_def isDigit_single isAlpha_single CR_def TAB_def NEWLINE_def
        DQUOTE_def del: One_nat_def)

lemma digit_not_switchCase: "isDigitChar c \<Longrightarrow> c \<notin> set switchCases"
  by (auto simp: isDigitChar_def switchCases_def)

lemma alpha_not_switchCase: "isAlphaChar c \<Longrightarrow> c \<notin> set switchCases"
  by (auto simp: isAlphaChar_def switchCases_def)

lemma alpha_not_digit: "isAlphaChar c \<Longrightarrow> \<not> isDigitChar c"
  by (auto simp: isAlphaChar_def isDigitChar_def less_eq_char_def)

lemma number_text_Cons:
  assumes "isDigitChar c"
  shows "number_text (c # r) = c # number_text r"
proof (cases "dropWhile isDigitChar r")
  case Nil
  then show ?thesis by (simp add: number_text_def assms Nil)
next
  case (Cons d r1)
  note d = this
  show ?thesis
  proof (cases r1)
    case Nil
    show ?thesis by (simp add: number_text_def assms d Nil)
  next
    case (Cons e r2)
    show ?thesis by (simp add: number_text_def assms d Cons Let_def)
  qed
qed

lemma identifier_text_Cons:
  "isAlphaChar c \<Longrightarrow> identifier_text (c # r) = c # identifier_text r"
  by (simp add: identifier_text_def isAlphaNumericChar_def)

lemma number_dispatch:
  assumes "rest s = c # r" "isDigitChar c"
  shows "scanToken (s\<lparr>start := current s\<rparr>) =
     s\<lparr>start := current s, current := current s + length (number_text (c # r)),
       tokens := tokens s @
         [\<lparr>ttype = NUMBER, lexeme = number_text (c # r),
           literal = Num (parseFloat (number_text (c # r))), tline = line s\<rparr>]\<rparr>"
proof -
  let ?s = "s\<lparr>start := current s\<rparr>"
  let ?n = "length (number_text r)"
  have r: "rest ?s = c # r" using assms(1) by simp
  have r1: "rest (skip 1 ?s) = r" using rest_ConsD(3) [OF r] .
  have "length (rest s) = Suc (length r)" using assms(1) by simp
  then have b: "current s + (?n + 1) \<le> length (source s)"
    using number_text_length [of r] by (simp add: length_rest)
  have t: "take (?n + 1) (rest s) = number_text (c # r)"
    using assms by (simp add: number_text_Cons number_text_prefix)
  have sub: "substring (source s) (current s) (current s + 1 + ?n) = number_text (c # r)"
    using b t by (simp add: substring_take_drop rest_def)
  have "scanToken ?s = number (skip 1 ?s)"
    using scanToken_default [OF r] assms(2) by (simp add: digit_not_switchCase)
  also have "\<dots> = addToken NUMBER (Num (parseFloat (number_text (c # r)))) (skip (?n + 1) ?s)"
    using sub by (simp only: number_eq r1 skip_skip) (simp add: add.commute)
  also have "\<dots> = ?s\<lparr>current := current ?s + (?n + 1),
       tokens := tokens ?s @
         [\<lparr>ttype = NUMBER, lexeme = take (?n + 1) (rest ?s),
           literal = Num (parseFloat (number_text (c # r))), tline = line ?s\<rparr>]\<rparr>"
    using b by (intro addToken_skip) simp_all
  finally show ?thesis
    using t assms(2) by (simp add: number_text_Cons)
qed

lemma identifier_dispatch:
  assumes "rest s = c # r" "isAlphaChar c"
  shows "scanToken (s\<lparr>start := current s\<rparr>) =
     s\<lparr>start := current s, current := current s + length (identifier_text (c # r)),
       tokens := tokens s @
         [\<lparr>ttype = (case map_of KEYWORDS (identifier_text (c # r)) of
                      None \<Rightarrow> IDENTIFIER | Some ty \<Rightarrow> ty),
           lexeme = identifier_text (c # r), literal = Null, tline = line s\<rparr>]\<rparr>"
proof -
  let ?s = "s\<lparr>start := current s\<rparr>"
  let ?n = "length (identifier_text r)"
  let ?ty = "case map_of KEYWORDS (identifier_text (c # r)) of
                      None \<Rightarrow> IDENTIFIER | Some ty \<Rightarrow> ty"
  have r: "rest ?s = c # r" using assms(1) by simp
  have r1: "rest (skip 1 ?s) = r" using rest_ConsD(3) [OF r] .
  have "length (rest s) = Suc (length r)" using assms(1) by simp
  moreover have "?n \<le> length r"
    by (simp add: identifier_text_def length_takeWhile_le)
  ultimately have b: "current s + (?n + 1) \<le> length (source s)"
    by (simp add: length_rest)
  have t: "take (?n + 1) (rest s) = identifier_text (c # r)"
    using assms
    by (simp add: identifier_text_Cons) (simp add: identifier_text_def takeWhile_eq_take [symmetric])
  have sub: "substring (source s) (current s) (current s + 1 + ?n) = identifier_text (c # r)"
    using b t by (simp add: substring_take_drop rest_def)
  have "scanToken ?s = identifier_scan (skip 1 ?s)"
    using scanToken_default [OF r] assms(2)
    by (simp add: alpha_not_switchCase alpha_not_digit)
  also have "\<dots> = addToken ?ty Null (skip (?n + 1) ?s)"
    using sub by (simp only: identifier_eq r1 skip_skip) (simp add: add.commute)
  also have "\<dots> = ?s\<lparr>current := current ?s + (?n + 1),
       tokens := tokens ?s @
         [\<lparr>ttype = ?ty, lexeme = take (?n + 1) (rest ?s), literal = Null,
           tline = line ?s\<rparr>]\<rparr>"
    using b by (intro addToken_skip) simp_all
  finally show ?thesis
    using t assms(2) by (simp add: identifier_text_Cons)
qed

lemma unexpected_dispatch:
  assumes "rest s = c # r" "\<not> recognized c"
  shows "scanToken (s\<lparr>start := current s\<rparr>) =
     s\<lparr>start := current s, current := current s + 1,
       reports := reports s @ [(line s, ''Unexpected character.'')]\<rparr>"
proof -
  let ?s = "s\<lparr>start := current s\<rparr>"
  have r: "rest ?s = c # r" using assms(1) by simp
  have "scanToken ?s = Lox_error (line ?s) ''Unexpected character.'' (skip 1 ?s)"
    using scanToken_default [OF r] assms(2) by (simp add: recognized_def)
  then show ?thesis
    by (simp add: Lox_error_def skip_def)
qed

lemma scanToken_dquote:
  assumes "rest s = CHR 0x22 # r"
  shows "scanToken s = string_scan (skip 1 s)"
  unfolding scanToken_def advance_Cons [OF assms]
  by (simp add: DQUOTE_def CR_def TAB_def NEWLINE_def del: One_nat_def)

lemma unterminated_dispatch:
  assumes "rest s = CHR 0x22 # body" "CHR 0x22 \<notin> set body"
  shows "scanToken (s\<lparr>start := current s\<rparr>) =
     s\<lparr>start := current s, current := length (source s), line := line s + newlines body,
       reports := reports s @ [(line s + newlines body, ''unexpected character.'')]\<rparr>"
proof -
  let ?s = "s\<lparr>start := current s\<rparr>"
  have r: "rest ?s = CHR 0x22 # body" using assms(1) by simp
  have r1: "rest (skip 1 ?s) = body" using rest_ConsD(3) [OF r] .
  have "length (rest s) = Suc (length body)" using assms(1) by simp
  then have len: "current s + 1 + length body = length (source s)"
    by (simp add: length_rest)
  have "scanToken ?s = string_scan (skip 1 ?s)"
    using r by (rule scanToken_dquote)
  also have "\<dots> = Lox_error (line s + newlines body) ''unexpected character.''
       ((skip (length body) (skip 1 ?s))\<lparr>line := line s + newlines body\<rparr>)"
    using string_scan_unterminated [of "skip 1 ?s"] assms(2) r1 by simp
  finally show ?thesis
    using len by (simp add: Lox_error_def skip_def)
qed

lemma scanToken_slash:
  assumes "rest s = CHR ''/'' # r"
  shows "scanToken s =
     (if take 1 r = ''/'' then comment_loop (skip 2 s) else addToken SLASH Null (skip 1 s))"
proof -
  have m: "match ''/'' (skip 1 s) =
      (if take 1 r = ''/'' then (True, skip 2 s) else (False, skip 1 s))"
    using rest_ConsD(3) [OF assms(1)] by (simp add: match_rest skip_skip)
  show ?thesis
    unfolding scanToken_def advance_Cons [OF assms(1)]
    by (simp add: m del: One_nat_def)
qed

lemma slash_at_end:
  assumes "rest s = ''/''"
  shows "scanToken (s\<lparr>start := current s\<rparr>) =
     s\<lparr>start := current s, current := current s + 1,
       tokens := tokens s @
         [\<lparr>ttype = SLASH, lexeme = ''/'', literal = Null, tline = line s\<rparr>]\<rparr>"
proof -
  let ?s = "s\<lparr>start := current s\<rparr>"
  have r: "rest ?s = ''/''" using assms by simp
  have "length (rest s) = 1" using assms by simp
  then have b: "current s + 1 \<le> length (source s)" by (simp add: length_rest)
  have "scanToken ?s = addToken SLASH Null (skip 1 ?s)"
    using scanToken_slash [OF r] by simp
  also have "\<dots> = ?s\<lparr>current := current ?s + 1,
       tokens := tokens ?s @
         [\<lparr>ttype = SLASH, lexeme = take 1 (rest ?s), literal = Null, tline = line ?s\<rparr>]\<rparr>"
    using b by (intro addToken_skip) simp_all
  finally show ?thesis by (simp add: assms)
qed

lemma comment_at_end:
  assumes "rest s = ''//''"
  shows "scanToken (s\<lparr>start := current s\<rparr>) = s\<lparr>start := current s, current := current s + 2\<rparr>"
proof -
  let ?s = "s\<lparr>start := current s\<rparr>"
  have r: "rest ?s = ''//''" using assms by simp
  have "rest (skip 2 ?s) = []" using r by (simp add: rest_skip)
  then have "comment_loop (skip 2 ?s) = skip 2 ?s"
    by (simp add: comment_eq comment_text_def skip_0)
  moreover have "scanToken ?s = comment_loop (skip 2 ?s)"
    using scanToken_slash [OF r] by simp
  ultimately show ?thesis by (simp add: skip_def)
qed

lemma operator_at_end:
  assumes "rest s = [c]" "c \<in> {CHR ''!'', CHR ''='', CHR ''<'', CHR ''>''}"
  shows "scanToken (s\<lparr>start := current s\<rparr>) =
     s\<lparr>start := current s, current := current s + 1,
       tokens := tokens s @
         [\<lparr>ttype = oneCharOperator c, lexeme = [c], literal = Null, tline = line s\<rparr>]\<rparr>"
  using operator_dispatch [OF assms] by simp

lemma match_at_end: "isAtEnd s \<Longrightarrow> e \<noteq> NUL \<Longrightarrow> match e s = (False, s)"
  by (simp add: match_def peek_def)

lemma peekNext_at_end: "length (source s) \<le> current s + 1 \<Longrightarrow> peekNext s = NUL"
  by (simp add: peekNext_def)

lemma segsOk_nonempty: "segsOk l gs \<Longrightarrow> g \<in> set gs \<Longrightarrow> segText g \<noteq> []"
  by (induction gs arbitrary: l) auto

lemma scanTokens_final:
  "line (snd (scanTokens (newScanner src))) = 1 + newlines src"
  "current (snd (scanTokens (newScanner src))) = length src"
proof -
  let ?s = "newScanner src"
  have "current ?s \<le> length (source ?s)" by (simp add: newScanner_def)
  then have "line (scanTokens_loop ?s) = line ?s + newlines (rest ?s) \<and>
      current (scanTokens_loop ?s) = length (source ?s)"
    using scanTokens_loop_segments [of ?s] by blast
  then show "line (snd (scanTokens ?s)) = 1 + newlines src"
    and "current (snd (scanTokens ?s)) = length src"
    by (simp_all add: scanTokens_def Let_def rest_newScanner) (simp_all add: newScanner_def)
qed

lemma scanTokens_number:
  assumes "ds \<noteq> []" "\<forall>c\<in>set ds. isDigitChar c"
  shows "fst (scanTokens (newScanner ds)) =
     [\<lparr>ttype = NUMBER, lexeme = ds, literal = Num (parseFloat ds), tline = 1\<rparr>,
      \<lparr>ttype = EOF, lexeme = [], literal = Null, tline = 1\<rparr>]"
proof -
  let ?s = "newScanner ds"
  obtain c r where ds: "ds = c # r" using assms(1) by (cases ds) auto
  have r: "rest ?s = c # r" by (simp add: rest_def newScanner_def ds)
  have c: "isDigitChar c" using assms(2) by (simp add: ds)
  have nt: "number_text (c # r) = ds"
    using number_text_digits [OF assms(2)] by (simp only: ds)
  define t where "t = scanToken (?s\<lparr>start := current ?s\<rparr>)"
  have t: "t = ?s\<lparr>start := current ?s, current := current ?s + length ds,
         tokens := tokens ?s @
           [\<lparr>ttype = NUMBER, lexeme = ds, literal = Num (parseFloat ds), tline = line ?s\<rparr>]\<rparr>"
    unfolding t_def using number_dispatch [OF r c] by (simp only: nt)
  have e: "isAtEnd t" by (simp add: t isAtEnd_def newScanner_def)
  have "\<not> isAtEnd ?s" using assms(1) by (simp add: isAtEnd_def newScanner_def)
  then have "scanTokens_loop ?s = scanTokens_loop t"
    unfolding t_def by (subst scanTokens_loop.simps) simp
  also have "\<dots> = t"
    using e by (subst scanTokens_loop.simps) simp
  finally show ?thesis
    by (simp add: scanTokens_def t newScanner_def)
qed

section \<open>Properties of the scanner\<close>

text \<open>
  C1. For every input \<^verbatim>\<open>scanTokens\<close> returns (the main loop is a total function: its
  termination is proved with its definition): the result is a list whose last element
  is the END_OF_INPUT token with the empty lexeme, and no other element is an
  END_OF_INPUT token.
\<close>

theorem scanTokens_ends_with_single_EOF:
  "\<exists>ts. fst (scanTokens (newScanner src)) =
          ts @ [\<lparr>ttype = EOF, lexeme = [], literal = Null, tline = 1 + newlines src\<rparr>] \<and>
        (\<forall>t\<in>set ts. ttype t \<noteq> EOF)"
proof -
  obtain gs where gs: "segsOk 1 gs"
     "fst (scanTokens (newScanner src)) = segTokens gs @
       [\<lparr>ttype = EOF, lexeme = [], literal = Null, tline = 1 + newlines src\<rparr>]"
    using scanTokens_segments [of src] by blast
  have "\<forall>t\<in>set (segTokens gs). ttype t \<noteq> EOF"
    using segsOk_tokens_not_EOF [OF gs(1)] by blast
  with gs(2) show ?thesis by blast
qed

theorem scanTokens_ends_with_single_EOF_witness:
  "\<exists>ts. fst (scanTokens (newScanner ''(1)'')) =
          ts @ [\<lparr>ttype = EOF, lexeme = [], literal = Null, tline = 1\<rparr>] \<and>
        (\<forall>t\<in>set ts. ttype t \<noteq> EOF) \<and> length ts = 3"
proof -
  obtain ts where ts: "fst (scanTokens (newScanner ''(1)'')) =
          ts @ [\<lparr>ttype = EOF, lexeme = [], literal = Null, tline = 1 + newlines ''(1)''\<rparr>]"
      "\<forall>t\<in>set ts. ttype t \<noteq> EOF"
    using scanTokens_ends_with_single_EOF [of "''(1)''"] by blast
  have "length (fst (scanTokens (newScanner ''(1)''))) = 4"
    by code_simp
  then have "length ts = 3" using ts(1) by simp
  moreover have "newlines ''(1)'' = 0" by code_simp
  ultimately show ?thesis using ts by auto
qed

text \<open>
  C2. The input of the claim, an opening double quote followed by \<^verbatim>\<open>abc\<close>: the
  only token is END_OF_INPUT and the sink receives one report, at line 1. The message
  that \<^verbatim>\<open>string()\<close> passes with it is \<^verbatim>\<open>unexpected character.\<close>, the words of
  the other kind of error, and not one about a string that is not terminated. What
  \<^verbatim>\<open>scanToken\<close> does on every such input is the lemma \<open>unterminated_dispatch\<close>.
\<close>

theorem unterminated_string_report:
  "fst (scanTokens (newScanner [CHR 0x22, CHR ''a'', CHR ''b'', CHR ''c''])) =
     [\<lparr>ttype = EOF, lexeme = [], literal = Null, tline = 1\<rparr>] \<and>
   reports (snd (scanTokens (newScanner [CHR 0x22, CHR ''a'', CHR ''b'', CHR ''c'']))) =
     [(1, ''unexpected character.'')]"
  by code_simp

text \<open>
  C3, as the code has it. \<^verbatim>\<open>addToken\<close> records the line counter at the moment the
  token is added, after its lexeme was consumed. The input is the concatenation of
  segments, the tokens are the lexeme segments in order, and the line of a token is
  1 plus the newlines before its lexeme plus the newlines inside its lexeme: the line
  on which its last character was consumed. Only a STRING lexeme can hold a newline,
  so for every other token this is the line of its first character, and a string
  literal that spans lines carries the line of its closing quote.
\<close>

theorem token_line_at_emission:
  "\<exists>gs. segsText gs = src \<and>
     fst (scanTokens (newScanner src)) = segTokens gs @
       [\<lparr>ttype = EOF, lexeme = [], literal = Null, tline = 1 + newlines src\<rparr>] \<and>
     (\<forall>pre t post. gs = pre @ Lexeme t # post \<longrightarrow>
        tline t = 1 + newlines (segsText pre) + newlines (lexeme t) \<and>
        (ttype t = STRING \<or> newlines (lexeme t) = 0))"
proof -
  obtain gs where gs: "segsText gs = src" "segsOk 1 gs"
     "fst (scanTokens (newScanner src)) = segTokens gs @
       [\<lparr>ttype = EOF, lexeme = [], literal = Null, tline = 1 + newlines src\<rparr>]"
    using scanTokens_segments [of src] by blast
  have "\<forall>pre t post. gs = pre @ Lexeme t # post \<longrightarrow>
        tline t = 1 + newlines (segsText pre) + newlines (lexeme t) \<and>
        (ttype t = STRING \<or> newlines (lexeme t) = 0)"
  proof (intro allI impI)
    fix pre t post assume "gs = pre @ Lexeme t # post"
    then have "segsOk 1 (pre @ Lexeme t # post)" using gs(2) by simp
    then show "tline t = 1 + newlines (segsText pre) + newlines (lexeme t) \<and>
        (ttype t = STRING \<or> newlines (lexeme t) = 0)"
      by (simp add: segsOk_append)
  qed
  with gs(1,3) show ?thesis by blast
qed

theorem token_line_at_emission_witness:
  "\<exists>gs. segsText gs = [CHR ''x'', CHR 0x0A, CHR 0x22, CHR 0x0A, CHR 0x22] \<and>
     segTokens gs =
       [\<lparr>ttype = IDENTIFIER, lexeme = ''x'', literal = Null, tline = 1\<rparr>,
        \<lparr>ttype = STRING, lexeme = [CHR 0x22, CHR 0x0A, CHR 0x22],
          literal = Str [CHR 0x0A], tline = 3\<rparr>] \<and>
     (\<forall>pre t post. gs = pre @ Lexeme t # post \<longrightarrow>
        tline t = 1 + newlines (segsText pre) + newlines (lexeme t) \<and>
        (ttype t = STRING \<or> newlines (lexeme t) = 0))"
proof -
  let ?src = "[CHR ''x'', CHR 0x0A, CHR 0x22, CHR 0x0A, CHR 0x22]"
  obtain gs where gs: "segsText gs = ?src"
     "fst (scanTokens (newScanner ?src)) = segTokens gs @
       [\<lparr>ttype = EOF, lexeme = [], literal = Null, tline = 1 + newlines ?src\<rparr>]"
     "\<forall>pre t post. gs = pre @ Lexeme t # post \<longrightarrow>
        tline t = 1 + newlines (segsText pre) + newlines (lexeme t) \<and>
        (ttype t = STRING \<or> newlines (lexeme t) = 0)"
    using token_line_at_emission [of ?src] by blast
  have "fst (scanTokens (newScanner ?src)) =
       [\<lparr>ttype = IDENTIFIER, lexeme = ''x'', literal = Null, tline = 1\<rparr>,
        \<lparr>ttype = STRING, lexeme = [CHR 0x22, CHR 0x0A, CHR 0x22],
          literal = Str [CHR 0x0A], tline = 3\<rparr>,
        \<lparr>ttype = EOF, lexeme = [], literal = Null, tline = 3\<rparr>]"
    by code_simp
  with gs(2) have "segTokens gs =
       [\<lparr>ttype = IDENTIFIER, lexeme = ''x'', literal = Null, tline = 1\<rparr>,
        \<lparr>ttype = STRING, lexeme = [CHR 0x22, CHR 0x0A, CHR 0x22],
          literal = Str [CHR 0x0A], tline = 3\<rparr>]"
    by simp
  with gs(1,3) show ?thesis by blast
qed

text \<open>
  C3 as stated fails: a string literal that opens on line 1 and closes on line 2 is
  added with line 2, and not with 1 plus the number of newlines before its opening
  quote, of which there is none.
\<close>

theorem string_line_counterexample:
  "fst (scanTokens (newScanner [CHR 0x22, CHR ''a'', CHR 0x0A, CHR ''b'', CHR 0x22])) =
     [\<lparr>ttype = STRING, lexeme = [CHR 0x22, CHR ''a'', CHR 0x0A, CHR ''b'', CHR 0x22],
       literal = Str [CHR ''a'', CHR 0x0A, CHR ''b''], tline = 2\<rparr>,
      \<lparr>ttype = EOF, lexeme = [], literal = Null, tline = 2\<rparr>] \<and>
   tline (hd (fst (scanTokens
      (newScanner [CHR 0x22, CHR ''a'', CHR 0x0A, CHR ''b'', CHR 0x22])))) \<noteq>
     1 + newlines []"
  by code_simp

text \<open>
  C4. When the scan reports nothing to the sink, the input is the concatenation, in
  order, of non-empty segments each of which is the lexeme of a token or a skipped
  span (a blank, a carriage return, a tab, a newline, or a comment up to but without
  the newline that ends it), and the tokens before END_OF_INPUT are exactly the lexeme
  segments, in that order.
\<close>

theorem lexemes_cover_source:
  assumes "reports (snd (scanTokens (newScanner src))) = []"
  shows "\<exists>gs. segsText gs = src \<and>
     fst (scanTokens (newScanner src)) = segTokens gs @
       [\<lparr>ttype = EOF, lexeme = [], literal = Null, tline = 1 + newlines src\<rparr>] \<and>
     (\<forall>g\<in>set gs. segText g \<noteq> [] \<and>
        (case g of Lexeme t \<Rightarrow> True | Skipped x \<Rightarrow> discardable x | Rejected x \<Rightarrow> False))"
proof -
  obtain gs where gs: "segsText gs = src" "segsOk 1 gs"
     "fst (scanTokens (newScanner src)) = segTokens gs @
       [\<lparr>ttype = EOF, lexeme = [], literal = Null, tline = 1 + newlines src\<rparr>]"
     "length (reports (snd (scanTokens (newScanner src)))) = rejected gs"
    using scanTokens_segments [of src] by blast
  have "rejected gs = 0" using gs(4) assms by simp
  then have no_rej: "Rejected x \<notin> set gs" for x by (rule rejected_none)
  have "\<forall>g\<in>set gs. segText g \<noteq> [] \<and>
        (case g of Lexeme t \<Rightarrow> True | Skipped x \<Rightarrow> discardable x | Rejected x \<Rightarrow> False)"
  proof
    fix g assume g: "g \<in> set gs"
    then have "segText g \<noteq> []" using gs(2) by (rule segsOk_nonempty [rotated])
    moreover have "case g of Lexeme t \<Rightarrow> True | Skipped x \<Rightarrow> discardable x | Rejected x \<Rightarrow> False"
    proof (cases g)
      case (Lexeme t)
      then show ?thesis by simp
    next
      case (Skipped x)
      then show ?thesis using g segsOk_Skipped [OF gs(2)] by simp
    next
      case (Rejected x)
      then show ?thesis using g no_rej by simp
    qed
    ultimately show "segText g \<noteq> [] \<and>
        (case g of Lexeme t \<Rightarrow> True | Skipped x \<Rightarrow> discardable x | Rejected x \<Rightarrow> False)"
      ..
  qed
  with gs(1,3) show ?thesis by blast
qed

theorem lexemes_cover_source_witness:
  "reports (snd (scanTokens (newScanner ''x = 1 // y''))) = [] \<and>
   (\<exists>gs. segsText gs = ''x = 1 // y'' \<and>
     segTokens gs =
       [\<lparr>ttype = IDENTIFIER, lexeme = ''x'', literal = Null, tline = 1\<rparr>,
        \<lparr>ttype = EQUAL, lexeme = ''='', literal = Null, tline = 1\<rparr>,
        \<lparr>ttype = NUMBER, lexeme = ''1'', literal = Num (Finite 1), tline = 1\<rparr>] \<and>
     (\<forall>g\<in>set gs. segText g \<noteq> [] \<and>
        (case g of Lexeme t \<Rightarrow> True | Skipped x \<Rightarrow> discardable x | Rejected x \<Rightarrow> False)))"
proof -
  have h: "reports (snd (scanTokens (newScanner ''x = 1 // y''))) = []"
    by code_simp
  obtain gs where gs: "segsText gs = ''x = 1 // y''"
     "fst (scanTokens (newScanner ''x = 1 // y'')) = segTokens gs @
       [\<lparr>ttype = EOF, lexeme = [], literal = Null, tline = 1 + newlines ''x = 1 // y''\<rparr>]"
     "\<forall>g\<in>set gs. segText g \<noteq> [] \<and>
        (case g of Lexeme t \<Rightarrow> True | Skipped x \<Rightarrow> discardable x | Rejected x \<Rightarrow> False)"
    using lexemes_cover_source [OF h] by blast
  have "fst (scanTokens (newScanner ''x = 1 // y'')) =
       [\<lparr>ttype = IDENTIFIER, lexeme = ''x'', literal = Null, tline = 1\<rparr>,
        \<lparr>ttype = EQUAL, lexeme = ''='', literal = Null, tline = 1\<rparr>,
        \<lparr>ttype = NUMBER, lexeme = ''1'', literal = Num (Finite 1), tline = 1\<rparr>,
        \<lparr>ttype = EOF, lexeme = [], literal = Null, tline = 1\<rparr>]"
    by code_simp
  with gs(2) have "segTokens gs =
       [\<lparr>ttype = IDENTIFIER, lexeme = ''x'', literal = Null, tline = 1\<rparr>,
        \<lparr>ttype = EQUAL, lexeme = ''='', literal = Null, tline = 1\<rparr>,
        \<lparr>ttype = NUMBER, lexeme = ''1'', literal = Num (Finite 1), tline = 1\<rparr>]"
    by simp
  with h gs(1,3) show ?thesis by blast
qed

text \<open>
  C5, as the code has it. The lines of the emitted tokens never decrease; the line
  counter starts at 1, every call of \<^verbatim>\<open>scanToken\<close> adds to it the number of newlines
  it consumed, and it ends at 1 plus the newlines of the input; the line of a token is
  1 plus the number of newlines consumed up to the end of its lexeme, those inside the
  lexeme included.
\<close>

theorem token_lines_monotone:
  "sorted (map tline (fst (scanTokens (newScanner src)))) \<and>
   line (newScanner src) = 1 \<and>
   (\<forall>s. \<not> isAtEnd s \<longrightarrow>
      line (scanToken (s\<lparr>start := current s\<rparr>)) =
        line s + newlines (consumed s (scanToken (s\<lparr>start := current s\<rparr>)))) \<and>
   line (snd (scanTokens (newScanner src))) = 1 + newlines src \<and>
   (\<exists>gs. segsText gs = src \<and>
      fst (scanTokens (newScanner src)) = segTokens gs @
        [\<lparr>ttype = EOF, lexeme = [], literal = Null, tline = 1 + newlines src\<rparr>] \<and>
      (\<forall>pre t post. gs = pre @ Lexeme t # post \<longrightarrow>
         tline t = 1 + newlines (segsText pre @ lexeme t)))"
proof (intro conjI)
  obtain gs where gs: "segsText gs = src" "segsOk 1 gs"
     "fst (scanTokens (newScanner src)) = segTokens gs @
       [\<lparr>ttype = EOF, lexeme = [], literal = Null, tline = 1 + newlines src\<rparr>]"
    using scanTokens_segments [of src] by blast
  have "\<forall>t\<in>set (segTokens gs). tline t \<le> 1 + newlines src"
    using segsOk_token_lines [OF gs(2)] gs(1) by blast
  then show "sorted (map tline (fst (scanTokens (newScanner src))))"
    using segsOk_sorted [OF gs(2)] by (simp add: gs(3) sorted_append)
  have "\<forall>pre t post. gs = pre @ Lexeme t # post \<longrightarrow>
         tline t = 1 + newlines (segsText pre @ lexeme t)"
  proof (intro allI impI)
    fix pre t post assume "gs = pre @ Lexeme t # post"
    then have "segsOk 1 (pre @ Lexeme t # post)" using gs(2) by simp
    then show "tline t = 1 + newlines (segsText pre @ lexeme t)"
      by (simp add: segsOk_append)
  qed
  with gs(1,3) show "\<exists>gs. segsText gs = src \<and>
      fst (scanTokens (newScanner src)) = segTokens gs @
        [\<lparr>ttype = EOF, lexeme = [], literal = Null, tline = 1 + newlines src\<rparr>] \<and>
      (\<forall>pre t post. gs = pre @ Lexeme t # post \<longrightarrow>
         tline t = 1 + newlines (segsText pre @ lexeme t))"
    by blast
next
  show "line (newScanner src) = 1" by (simp add: newScanner_def)
next
  show "\<forall>s. \<not> isAtEnd s \<longrightarrow>
      line (scanToken (s\<lparr>start := current s\<rparr>)) =
        line s + newlines (consumed s (scanToken (s\<lparr>start := current s\<rparr>)))"
    using scanToken_advances by (simp add: step_spec_def)
next
  show "line (snd (scanTokens (newScanner src))) = 1 + newlines src"
    by (rule scanTokens_final)
qed

theorem token_lines_monotone_witness:
  "map tline (fst (scanTokens (newScanner ''1\<newline>+\<newline>\<newline>2''))) = [1, 2, 4, 4] \<and>
   sorted (map tline (fst (scanTokens (newScanner ''1\<newline>+\<newline>\<newline>2'')))) \<and>
   \<not> isAtEnd (newScanner ''\<newline>1'') \<and>
   line (scanToken ((newScanner ''\<newline>1'')\<lparr>start := 0\<rparr>)) = 2 \<and>
   line (snd (scanTokens (newScanner ''1\<newline>+\<newline>\<newline>2''))) = 4"
proof -
  let ?src = "''1\<newline>+\<newline>\<newline>2''"
  let ?s = "newScanner ''\<newline>1''"
  note mono = token_lines_monotone [of ?src]
  have "map tline (fst (scanTokens (newScanner ?src))) = [1, 2, 4, 4]"
    by code_simp
  moreover have e: "\<not> isAtEnd ?s"
    by (simp add: isAtEnd_def newScanner_def)
  moreover have "line (scanToken (?s\<lparr>start := current ?s\<rparr>)) =
      line ?s + newlines (consumed ?s (scanToken (?s\<lparr>start := current ?s\<rparr>)))"
    using mono e by blast
  moreover have "line ?s + newlines (consumed ?s (scanToken (?s\<lparr>start := current ?s\<rparr>))) = 2"
    by code_simp
  moreover have "current ?s = 0" by (simp add: newScanner_def)
  moreover have "1 + newlines ?src = 4" by code_simp
  ultimately show ?thesis
    using mono by simp
qed

text \<open>
  C5 as stated fails: no newline comes before the first character of a string literal
  that opens the input and holds two newlines, and the token has line 3.
\<close>

theorem line_count_counterexample:
  "fst (scanTokens (newScanner [CHR 0x22, CHR 0x0A, CHR 0x0A, CHR 0x22])) =
     [\<lparr>ttype = STRING, lexeme = [CHR 0x22, CHR 0x0A, CHR 0x0A, CHR 0x22],
       literal = Str [CHR 0x0A, CHR 0x0A], tline = 3\<rparr>,
      \<lparr>ttype = EOF, lexeme = [], literal = Null, tline = 3\<rparr>] \<and>
   tline (hd (fst (scanTokens (newScanner [CHR 0x22, CHR 0x0A, CHR 0x0A, CHR 0x22])))) \<noteq>
     1 + newlines []"
  by code_simp

text \<open>
  C6. When the dispatch has consumed a digit, the lexeme is \<open>number_text\<close> of the
  input from that digit on: the longest run of digits, and then a point with the
  longest run of digits after it only when a digit follows the point at once. One
  NUMBER token is added. Its literal is the number that \<^verbatim>\<open>parseFloat\<close> returns for
  the lexeme, and that number is the floating-point value of the lexeme: the one
  number value (the nearest double, the even one of two that are equally near, the
  infinity beyond the largest double) of the decimal value that the digits of the
  lexeme denote by their positions. So \<^verbatim>\<open>1.5\<close> is one NUMBER token with literal
  1.5, and \<^verbatim>\<open>1.\<close> is NUMBER 1 and then DOT; the literal of \<^verbatim>\<open>0.1\<close> is
  \<open>3602879701896397 / 2 ^ 55\<close>, the literal of \<^verbatim>\<open>9007199254740993\<close>, which is
  \<open>2 ^ 53 + 1\<close>, is \<open>2 ^ 53\<close>, and the literal of 1 followed by 309 zeros is
  \<^verbatim>\<open>Infinity\<close>.
\<close>

theorem number_extraction:
  "(\<forall>s c r. rest s = c # r \<and> isDigitChar c \<longrightarrow>
      scanToken (s\<lparr>start := current s\<rparr>) =
        s\<lparr>start := current s, current := current s + length (number_text (c # r)),
          tokens := tokens s @
            [\<lparr>ttype = NUMBER, lexeme = number_text (c # r),
              literal = Num (parseFloat (number_text (c # r))), tline = line s\<rparr>]\<rparr> \<and>
      (\<forall>n. isNumberValueOf (numeralValue (number_text (c # r))) n \<longleftrightarrow>
           n = parseFloat (number_text (c # r)))) \<and>
   fst (scanTokens (newScanner ''1.5'')) =
     [\<lparr>ttype = NUMBER, lexeme = ''1.5'', literal = Num (Finite (3 / 2)), tline = 1\<rparr>,
      \<lparr>ttype = EOF, lexeme = [], literal = Null, tline = 1\<rparr>] \<and>
   fst (scanTokens (newScanner ''1.'')) =
     [\<lparr>ttype = NUMBER, lexeme = ''1'', literal = Num (Finite 1), tline = 1\<rparr>,
      \<lparr>ttype = DOT, lexeme = ''.'', literal = Null, tline = 1\<rparr>,
      \<lparr>ttype = EOF, lexeme = [], literal = Null, tline = 1\<rparr>] \<and>
   fst (scanTokens (newScanner ''0.1'')) =
     [\<lparr>ttype = NUMBER, lexeme = ''0.1'',
       literal = Num (Finite (3602879701896397 / 2 ^ 55)), tline = 1\<rparr>,
      \<lparr>ttype = EOF, lexeme = [], literal = Null, tline = 1\<rparr>] \<and>
   fst (scanTokens (newScanner ''9007199254740993'')) =
     [\<lparr>ttype = NUMBER, lexeme = ''9007199254740993'',
       literal = Num (Finite (2 ^ 53)), tline = 1\<rparr>,
      \<lparr>ttype = EOF, lexeme = [], literal = Null, tline = 1\<rparr>] \<and>
   fst (scanTokens (newScanner (CHR ''1'' # replicate 309 (CHR ''0'')))) =
     [\<lparr>ttype = NUMBER, lexeme = CHR ''1'' # replicate 309 (CHR ''0''),
       literal = Num PosInfinity, tline = 1\<rparr>,
      \<lparr>ttype = EOF, lexeme = [], literal = Null, tline = 1\<rparr>]"
proof (intro conjI allI impI)
  fix s c r assume "rest s = c # r \<and> isDigitChar c"
  then show "scanToken (s\<lparr>start := current s\<rparr>) =
        s\<lparr>start := current s, current := current s + length (number_text (c # r)),
          tokens := tokens s @
            [\<lparr>ttype = NUMBER, lexeme = number_text (c # r),
              literal = Num (parseFloat (number_text (c # r))), tline = line s\<rparr>]\<rparr>"
    by (simp add: number_dispatch)
next
  fix s :: Scanner and c r n assume "rest s = c # r \<and> isDigitChar c"
  then show "isNumberValueOf (numeralValue (number_text (c # r))) n \<longleftrightarrow>
      n = parseFloat (number_text (c # r))"
    by (simp add: parseFloat_number_value)
next
  show "fst (scanTokens (newScanner ''1.5'')) =
     [\<lparr>ttype = NUMBER, lexeme = ''1.5'', literal = Num (Finite (3 / 2)), tline = 1\<rparr>,
      \<lparr>ttype = EOF, lexeme = [], literal = Null, tline = 1\<rparr>]"
    by code_simp
next
  show "fst (scanTokens (newScanner ''1.'')) =
     [\<lparr>ttype = NUMBER, lexeme = ''1'', literal = Num (Finite 1), tline = 1\<rparr>,
      \<lparr>ttype = DOT, lexeme = ''.'', literal = Null, tline = 1\<rparr>,
      \<lparr>ttype = EOF, lexeme = [], literal = Null, tline = 1\<rparr>]"
    by code_simp
next
  show "fst (scanTokens (newScanner ''0.1'')) =
     [\<lparr>ttype = NUMBER, lexeme = ''0.1'',
       literal = Num (Finite (3602879701896397 / 2 ^ 55)), tline = 1\<rparr>,
      \<lparr>ttype = EOF, lexeme = [], literal = Null, tline = 1\<rparr>]"
    by code_simp
next
  show "fst (scanTokens (newScanner ''9007199254740993'')) =
     [\<lparr>ttype = NUMBER, lexeme = ''9007199254740993'',
       literal = Num (Finite (2 ^ 53)), tline = 1\<rparr>,
      \<lparr>ttype = EOF, lexeme = [], literal = Null, tline = 1\<rparr>]"
    by code_simp
next
  let ?ds = "CHR ''1'' # replicate 309 (CHR ''0'')"
  have d: "\<forall>c\<in>set ?ds. isDigitChar c" by (simp add: isDigitChar_def)
  have "2 ^ 1024 - 2 ^ 970 \<le> decimalValue ?ds"
    by (simp only: decimalValue_power_of_ten) simp
  then have "parseFloat ?ds = PosInfinity"
    using d by (intro parseFloat_overflow) simp_all
  then show "fst (scanTokens (newScanner ?ds)) =
     [\<lparr>ttype = NUMBER, lexeme = ?ds, literal = Num PosInfinity, tline = 1\<rparr>,
      \<lparr>ttype = EOF, lexeme = [], literal = Null, tline = 1\<rparr>]"
    using scanTokens_number [OF _ d] by simp
qed

theorem number_extraction_witness:
  "rest (newScanner ''12.5.x'') = CHR ''1'' # ''2.5.x'' \<and> isDigitChar (CHR ''1'') \<and>
   scanToken ((newScanner ''12.5.x'')\<lparr>start := 0\<rparr>) =
     \<lparr>source = ''12.5.x'',
      tokens = [\<lparr>ttype = NUMBER, lexeme = ''12.5'', literal = Num (Finite (25 / 2)), tline = 1\<rparr>],
      start = 0, current = 4, line = 1, reports = []\<rparr> \<and>
   numeralValue ''12.5'' = 25 / 2 \<and>
   isNumberValueOf (25 / 2) (Finite (25 / 2))"
proof -
  let ?s = "newScanner ''12.5.x''"
  have h: "rest ?s = CHR ''1'' # ''2.5.x'' \<and> isDigitChar (CHR ''1'')"
    by code_simp
  have c: "current ?s = 0" by (simp add: newScanner_def)
  have t: "scanToken (?s\<lparr>start := current ?s\<rparr>) =
        ?s\<lparr>start := current ?s, current := current ?s + length (number_text ''12.5.x''),
          tokens := tokens ?s @
            [\<lparr>ttype = NUMBER, lexeme = number_text ''12.5.x'',
              literal = Num (parseFloat (number_text ''12.5.x'')), tline = line ?s\<rparr>]\<rparr> \<and>
      (\<forall>n. isNumberValueOf (numeralValue (number_text ''12.5.x'')) n \<longleftrightarrow>
           n = parseFloat (number_text ''12.5.x''))"
    using number_extraction h by blast
  have "?s\<lparr>start := current ?s, current := current ?s + length (number_text ''12.5.x''),
          tokens := tokens ?s @
            [\<lparr>ttype = NUMBER, lexeme = number_text ''12.5.x'',
              literal = Num (parseFloat (number_text ''12.5.x'')), tline = line ?s\<rparr>]\<rparr> =
     \<lparr>source = ''12.5.x'',
      tokens = [\<lparr>ttype = NUMBER, lexeme = ''12.5'', literal = Num (Finite (25 / 2)), tline = 1\<rparr>],
      start = 0, current = 4, line = 1, reports = []\<rparr>"
    by code_simp
  with t have st: "scanToken (?s\<lparr>start := current ?s\<rparr>) =
     \<lparr>source = ''12.5.x'',
      tokens = [\<lparr>ttype = NUMBER, lexeme = ''12.5'', literal = Num (Finite (25 / 2)), tline = 1\<rparr>],
      start = 0, current = 4, line = 1, reports = []\<rparr>"
    by simp
  have nt: "number_text ''12.5.x'' = ''12.5''" by code_simp
  have nv: "numeralValue ''12.5'' = 25 / 2" by code_simp
  have pf: "parseFloat ''12.5'' = Finite (25 / 2)" by code_simp
  from t have "isNumberValueOf (numeralValue (number_text ''12.5.x''))
      (parseFloat (number_text ''12.5.x''))"
    by blast
  then have "isNumberValueOf (25 / 2) (Finite (25 / 2))"
    by (simp only: nt nv pf)
  then show ?thesis using h c st nv by simp
qed

text \<open>
  C7. When the dispatch has consumed one of \<^verbatim>\<open>! = < >\<close>, only the next character
  is looked at: if it is \<^verbatim>\<open>=\<close> it is consumed and the two-character token type is
  added, otherwise the one-character type is added and the cursor stays on that next
  character. So \<^verbatim>\<open>!=\<close> is one BANG_EQUAL token, and \<^verbatim>\<open>!a\<close> is BANG and then the
  token of \<^verbatim>\<open>a\<close>.
\<close>

theorem operator_lookahead:
  "(\<forall>s c r. rest s = c # r \<and> c \<in> {CHR ''!'', CHR ''='', CHR ''<'', CHR ''>''} \<longrightarrow>
      scanToken (s\<lparr>start := current s\<rparr>) =
        (if take 1 r = ''=''
         then s\<lparr>start := current s, current := current s + 2,
                tokens := tokens s @
                  [\<lparr>ttype = twoCharOperator c, lexeme = [c, CHR ''=''], literal = Null,
                    tline = line s\<rparr>]\<rparr>
         else s\<lparr>start := current s, current := current s + 1,
                tokens := tokens s @
                  [\<lparr>ttype = oneCharOperator c, lexeme = [c], literal = Null,
                    tline = line s\<rparr>]\<rparr>)) \<and>
   map twoCharOperator ''!=<>'' = [BANG_EQUAL, EQUAL_EQUAL, LESS_EQUAL, GREATER_EQUAL] \<and>
   map oneCharOperator ''!=<>'' = [BANG, EQUAL, LESS, GREATER] \<and>
   fst (scanTokens (newScanner ''!='')) =
     [\<lparr>ttype = BANG_EQUAL, lexeme = ''!='', literal = Null, tline = 1\<rparr>,
      \<lparr>ttype = EOF, lexeme = [], literal = Null, tline = 1\<rparr>] \<and>
   fst (scanTokens (newScanner ''!a'')) =
     [\<lparr>ttype = BANG, lexeme = ''!'', literal = Null, tline = 1\<rparr>,
      \<lparr>ttype = IDENTIFIER, lexeme = ''a'', literal = Null, tline = 1\<rparr>,
      \<lparr>ttype = EOF, lexeme = [], literal = Null, tline = 1\<rparr>]"
proof (intro conjI allI impI)
  fix s c r assume "rest s = c # r \<and> c \<in> {CHR ''!'', CHR ''='', CHR ''<'', CHR ''>''}"
  then have "rest s = c # r" "c \<in> {CHR ''!'', CHR ''='', CHR ''<'', CHR ''>''}"
    by simp_all
  then show "scanToken (s\<lparr>start := current s\<rparr>) =
        (if take 1 r = ''=''
         then s\<lparr>start := current s, current := current s + 2,
                tokens := tokens s @
                  [\<lparr>ttype = twoCharOperator c, lexeme = [c, CHR ''=''], literal = Null,
                    tline = line s\<rparr>]\<rparr>
         else s\<lparr>start := current s, current := current s + 1,
                tokens := tokens s @
                  [\<lparr>ttype = oneCharOperator c, lexeme = [c], literal = Null,
                    tline = line s\<rparr>]\<rparr>)"
    by (rule operator_dispatch)
next
  show "map twoCharOperator ''!=<>'' = [BANG_EQUAL, EQUAL_EQUAL, LESS_EQUAL, GREATER_EQUAL]"
    by (simp add: twoCharOperator_def)
next
  show "map oneCharOperator ''!=<>'' = [BANG, EQUAL, LESS, GREATER]"
    by (simp add: oneCharOperator_def)
next
  show "fst (scanTokens (newScanner ''!='')) =
     [\<lparr>ttype = BANG_EQUAL, lexeme = ''!='', literal = Null, tline = 1\<rparr>,
      \<lparr>ttype = EOF, lexeme = [], literal = Null, tline = 1\<rparr>]"
    by code_simp
next
  show "fst (scanTokens (newScanner ''!a'')) =
     [\<lparr>ttype = BANG, lexeme = ''!'', literal = Null, tline = 1\<rparr>,
      \<lparr>ttype = IDENTIFIER, lexeme = ''a'', literal = Null, tline = 1\<rparr>,
      \<lparr>ttype = EOF, lexeme = [], literal = Null, tline = 1\<rparr>]"
    by code_simp
qed

theorem operator_lookahead_witness:
  "rest (newScanner ''<=1'') = CHR ''<'' # ''=1'' \<and>
   CHR ''<'' \<in> {CHR ''!'', CHR ''='', CHR ''<'', CHR ''>''} \<and>
   scanToken ((newScanner ''<=1'')\<lparr>start := 0\<rparr>) =
     \<lparr>source = ''<=1'',
      tokens = [\<lparr>ttype = LESS_EQUAL, lexeme = ''<='', literal = Null, tline = 1\<rparr>],
      start = 0, current = 2, line = 1, reports = []\<rparr>"
proof -
  let ?s = "newScanner ''<=1''"
  have h: "rest ?s = CHR ''<'' # ''=1'' \<and>
      CHR ''<'' \<in> {CHR ''!'', CHR ''='', CHR ''<'', CHR ''>''}"
    by (simp add: rest_def newScanner_def)
  have c: "current ?s = 0" by (simp add: newScanner_def)
  have "scanToken (?s\<lparr>start := current ?s\<rparr>) =
        (if take 1 ''=1'' = ''=''
         then ?s\<lparr>start := current ?s, current := current ?s + 2,
                tokens := tokens ?s @
                  [\<lparr>ttype = twoCharOperator (CHR ''<''), lexeme = [CHR ''<'', CHR ''=''],
                    literal = Null, tline = line ?s\<rparr>]\<rparr>
         else ?s\<lparr>start := current ?s, current := current ?s + 1,
                tokens := tokens ?s @
                  [\<lparr>ttype = oneCharOperator (CHR ''<''), lexeme = [CHR ''<''],
                    literal = Null, tline = line ?s\<rparr>]\<rparr>)"
    using operator_lookahead h by blast
  also have "\<dots> = \<lparr>source = ''<=1'',
      tokens = [\<lparr>ttype = LESS_EQUAL, lexeme = ''<='', literal = Null, tline = 1\<rparr>],
      start = 0, current = 2, line = 1, reports = []\<rparr>"
    by (simp add: newScanner_def twoCharOperator_def)
  finally show ?thesis using h c by simp
qed

text \<open>
  C8. When the dispatch has consumed a letter or an underscore, the lexeme is the
  longest run of letters, digits and underscores; its type is the entry of the keyword
  table for exactly that text, IDENTIFIER when there is none, and it has no literal.
  So \<^verbatim>\<open>classic\<close> is one IDENTIFIER token and \<^verbatim>\<open>class\<close> is one CLASS token.
\<close>

theorem identifier_extraction:
  "(\<forall>s c r. rest s = c # r \<and> isAlphaChar c \<longrightarrow>
      scanToken (s\<lparr>start := current s\<rparr>) =
        s\<lparr>start := current s, current := current s + length (identifier_text (c # r)),
          tokens := tokens s @
            [\<lparr>ttype = (case map_of KEYWORDS (identifier_text (c # r)) of
                         None \<Rightarrow> IDENTIFIER | Some ty \<Rightarrow> ty),
              lexeme = identifier_text (c # r), literal = Null, tline = line s\<rparr>]\<rparr>) \<and>
   fst (scanTokens (newScanner ''classic'')) =
     [\<lparr>ttype = IDENTIFIER, lexeme = ''classic'', literal = Null, tline = 1\<rparr>,
      \<lparr>ttype = EOF, lexeme = [], literal = Null, tline = 1\<rparr>] \<and>
   fst (scanTokens (newScanner ''class'')) =
     [\<lparr>ttype = CLASS, lexeme = ''class'', literal = Null, tline = 1\<rparr>,
      \<lparr>ttype = EOF, lexeme = [], literal = Null, tline = 1\<rparr>]"
proof (intro conjI allI impI)
  fix s c r assume "rest s = c # r \<and> isAlphaChar c"
  then show "scanToken (s\<lparr>start := current s\<rparr>) =
        s\<lparr>start := current s, current := current s + length (identifier_text (c # r)),
          tokens := tokens s @
            [\<lparr>ttype = (case map_of KEYWORDS (identifier_text (c # r)) of
                         None \<Rightarrow> IDENTIFIER | Some ty \<Rightarrow> ty),
              lexeme = identifier_text (c # r), literal = Null, tline = line s\<rparr>]\<rparr>"
    by (simp add: identifier_dispatch)
next
  show "fst (scanTokens (newScanner ''classic'')) =
     [\<lparr>ttype = IDENTIFIER, lexeme = ''classic'', literal = Null, tline = 1\<rparr>,
      \<lparr>ttype = EOF, lexeme = [], literal = Null, tline = 1\<rparr>]"
    by code_simp
next
  show "fst (scanTokens (newScanner ''class'')) =
     [\<lparr>ttype = CLASS, lexeme = ''class'', literal = Null, tline = 1\<rparr>,
      \<lparr>ttype = EOF, lexeme = [], literal = Null, tline = 1\<rparr>]"
    by code_simp
qed

theorem identifier_extraction_witness:
  "rest (newScanner ''while_1+'') = CHR ''w'' # ''hile_1+'' \<and> isAlphaChar (CHR ''w'') \<and>
   scanToken ((newScanner ''while_1+'')\<lparr>start := 0\<rparr>) =
     \<lparr>source = ''while_1+'',
      tokens = [\<lparr>ttype = IDENTIFIER, lexeme = ''while_1'', literal = Null, tline = 1\<rparr>],
      start = 0, current = 7, line = 1, reports = []\<rparr>"
proof -
  let ?s = "newScanner ''while_1+''"
  have h: "rest ?s = CHR ''w'' # ''hile_1+'' \<and> isAlphaChar (CHR ''w'')"
    by code_simp
  have c: "current ?s = 0" by (simp add: newScanner_def)
  have "scanToken (?s\<lparr>start := current ?s\<rparr>) =
        ?s\<lparr>start := current ?s, current := current ?s + length (identifier_text ''while_1+''),
          tokens := tokens ?s @
            [\<lparr>ttype = (case map_of KEYWORDS (identifier_text ''while_1+'') of
                         None \<Rightarrow> IDENTIFIER | Some ty \<Rightarrow> ty),
              lexeme = identifier_text ''while_1+'', literal = Null, tline = line ?s\<rparr>]\<rparr>"
    using identifier_extraction h by blast
  also have "\<dots> = \<lparr>source = ''while_1+'',
      tokens = [\<lparr>ttype = IDENTIFIER, lexeme = ''while_1'', literal = Null, tline = 1\<rparr>],
      start = 0, current = 7, line = 1, reports = []\<rparr>"
    by code_simp
  finally show ?thesis using h c by simp
qed

text \<open>
  C9. When the consumed character is none of the characters of the \<^verbatim>\<open>switch\<close>,
  not a digit, not a letter and not an underscore, one report with the message
  \<^verbatim>\<open>Unexpected character.\<close> and the current line goes to the sink, no token is
  added, and the cursor is on the next character. So \<^verbatim>\<open>@\<close> gives one such report
  at line 1, and the only token is END_OF_INPUT.
\<close>

theorem unexpected_character:
  "(\<forall>s c r. rest s = c # r \<and> \<not> recognized c \<longrightarrow>
      scanToken (s\<lparr>start := current s\<rparr>) =
        s\<lparr>start := current s, current := current s + 1,
          reports := reports s @ [(line s, ''Unexpected character.'')]\<rparr>) \<and>
   fst (scanTokens (newScanner ''@'')) =
     [\<lparr>ttype = EOF, lexeme = [], literal = Null, tline = 1\<rparr>] \<and>
   reports (snd (scanTokens (newScanner ''@''))) = [(1, ''Unexpected character.'')]"
proof (intro conjI allI impI)
  fix s c r assume "rest s = c # r \<and> \<not> recognized c"
  then show "scanToken (s\<lparr>start := current s\<rparr>) =
        s\<lparr>start := current s, current := current s + 1,
          reports := reports s @ [(line s, ''Unexpected character.'')]\<rparr>"
    by (simp add: unexpected_dispatch)
next
  show "fst (scanTokens (newScanner ''@'')) =
     [\<lparr>ttype = EOF, lexeme = [], literal = Null, tline = 1\<rparr>]"
    by code_simp
next
  show "reports (snd (scanTokens (newScanner ''@''))) = [(1, ''Unexpected character.'')]"
    by code_simp
qed

theorem unexpected_character_witness:
  "rest (newScanner ''#1'') = CHR ''#'' # ''1'' \<and> \<not> recognized (CHR ''#'') \<and>
   scanToken ((newScanner ''#1'')\<lparr>start := 0\<rparr>) =
     \<lparr>source = ''#1'', tokens = [], start = 0, current = 1, line = 1,
      reports = [(1, ''Unexpected character.'')]\<rparr>"
proof -
  let ?s = "newScanner ''#1''"
  have h: "rest ?s = CHR ''#'' # ''1'' \<and> \<not> recognized (CHR ''#'')"
    by code_simp
  have c: "current ?s = 0" by (simp add: newScanner_def)
  have "scanToken (?s\<lparr>start := current ?s\<rparr>) =
        ?s\<lparr>start := current ?s, current := current ?s + 1,
          reports := reports ?s @ [(line ?s, ''Unexpected character.'')]\<rparr>"
    using unexpected_character h by blast
  also have "\<dots> = \<lparr>source = ''#1'', tokens = [], start = 0, current = 1, line = 1,
      reports = [(1, ''Unexpected character.'')]\<rparr>"
    by (simp add: newScanner_def)
  finally show ?thesis using h c by simp
qed

text \<open>
  C10. At the end of the input \<^verbatim>\<open>peek\<close> returns the NUL character, and so does
  \<^verbatim>\<open>peekNext\<close> when at most one character is left; \<^verbatim>\<open>match\<close> returns false and
  leaves the cursor where it is, for every expected character other than NUL (the
  scanner passes \<^verbatim>\<open>=\<close> and \<^verbatim>\<open>/\<close> only). The cursor moves by one character at a
  time and only forward, so that it never passes the end of the input says that no
  character was read there: that holds after every call of \<^verbatim>\<open>scanToken\<close>, and the
  scan ends with the cursor at the length of the input. When the last character of
  the input is dispatched and is one of \<^verbatim>\<open>! = < > /\<close> the one-character token is
  added; a final \<^verbatim>\<open>//\<close> is discarded.
\<close>

theorem lookahead_at_end:
  "(\<forall>s. isAtEnd s \<longrightarrow> peek s = NUL) \<and>
   (\<forall>s. length (source s) \<le> current s + 1 \<longrightarrow> peekNext s = NUL) \<and>
   (\<forall>s e. isAtEnd s \<and> e \<noteq> NUL \<longrightarrow> match e s = (False, s)) \<and>
   (\<forall>s. \<not> isAtEnd s \<longrightarrow>
      current (scanToken (s\<lparr>start := current s\<rparr>)) \<le> length (source s)) \<and>
   current (snd (scanTokens (newScanner src))) = length src \<and>
   (\<forall>s c. rest s = [c] \<and> c \<in> {CHR ''!'', CHR ''='', CHR ''<'', CHR ''>''} \<longrightarrow>
      scanToken (s\<lparr>start := current s\<rparr>) =
        s\<lparr>start := current s, current := current s + 1,
          tokens := tokens s @
            [\<lparr>ttype = oneCharOperator c, lexeme = [c], literal = Null, tline = line s\<rparr>]\<rparr>) \<and>
   (\<forall>s. rest s = ''/'' \<longrightarrow>
      scanToken (s\<lparr>start := current s\<rparr>) =
        s\<lparr>start := current s, current := current s + 1,
          tokens := tokens s @
            [\<lparr>ttype = SLASH, lexeme = ''/'', literal = Null, tline = line s\<rparr>]\<rparr>) \<and>
   (\<forall>s. rest s = ''//'' \<longrightarrow>
      scanToken (s\<lparr>start := current s\<rparr>) =
        s\<lparr>start := current s, current := current s + 2\<rparr>) \<and>
   map (\<lambda>x. map ttype (fst (scanTokens (newScanner x))))
       [''!'', ''='', ''<'', ''>'', ''/'', ''//''] =
     [[BANG, EOF], [EQUAL, EOF], [LESS, EOF], [GREATER, EOF], [SLASH, EOF], [EOF]]"
proof (intro conjI allI impI)
  fix s assume "isAtEnd s"
  then show "peek s = NUL" by (rule isAtEnd_peek)
next
  fix s :: Scanner assume "length (source s) \<le> current s + 1"
  then show "peekNext s = NUL" by (rule peekNext_at_end)
next
  fix s e assume "isAtEnd s \<and> e \<noteq> NUL"
  then show "match e s = (False, s)" by (simp add: match_at_end)
next
  fix s assume "\<not> isAtEnd s"
  then have "step_spec s (scanToken (s\<lparr>start := current s\<rparr>))"
    by (rule scanToken_advances)
  then show "current (scanToken (s\<lparr>start := current s\<rparr>)) \<le> length (source s)"
    by (simp add: step_spec_def)
next
  show "current (snd (scanTokens (newScanner src))) = length src"
    by (rule scanTokens_final)
next
  fix s c assume "rest s = [c] \<and> c \<in> {CHR ''!'', CHR ''='', CHR ''<'', CHR ''>''}"
  then have "rest s = [c]" "c \<in> {CHR ''!'', CHR ''='', CHR ''<'', CHR ''>''}"
    by simp_all
  then show "scanToken (s\<lparr>start := current s\<rparr>) =
        s\<lparr>start := current s, current := current s + 1,
          tokens := tokens s @
            [\<lparr>ttype = oneCharOperator c, lexeme = [c], literal = Null, tline = line s\<rparr>]\<rparr>"
    by (rule operator_at_end)
next
  fix s assume "rest s = ''/''"
  then show "scanToken (s\<lparr>start := current s\<rparr>) =
        s\<lparr>start := current s, current := current s + 1,
          tokens := tokens s @
            [\<lparr>ttype = SLASH, lexeme = ''/'', literal = Null, tline = line s\<rparr>]\<rparr>"
    by (rule slash_at_end)
next
  fix s assume "rest s = ''//''"
  then show "scanToken (s\<lparr>start := current s\<rparr>) =
        s\<lparr>start := current s, current := current s + 2\<rparr>"
    by (rule comment_at_end)
next
  show "map (\<lambda>x. map ttype (fst (scanTokens (newScanner x))))
       [''!'', ''='', ''<'', ''>'', ''/'', ''//''] =
     [[BANG, EOF], [EQUAL, EOF], [LESS, EOF], [GREATER, EOF], [SLASH, EOF], [EOF]]"
    by code_simp
qed

theorem lookahead_at_end_witness:
  "isAtEnd (newScanner []) \<and> peek (newScanner []) = NUL \<and>
   peekNext (newScanner ''1'') = NUL \<and>
   ''='' \<noteq> NUL \<and> match ''='' (newScanner []) = (False, newScanner []) \<and>
   rest (newScanner ''>'') = ''>'' \<and>
   scanToken ((newScanner ''>'')\<lparr>start := 0\<rparr>) =
     \<lparr>source = ''>'',
      tokens = [\<lparr>ttype = GREATER, lexeme = ''>'', literal = Null, tline = 1\<rparr>],
      start = 0, current = 1, line = 1, reports = []\<rparr>"
proof -
  note at_end = lookahead_at_end [of "[]"]
  let ?e = "newScanner []"
  let ?s = "newScanner ''>''"
  have e: "isAtEnd ?e" by (simp add: isAtEnd_def newScanner_def)
  have n: "''='' \<noteq> NUL" by (simp add: NUL_def)
  have p: "peek ?e = NUL" using at_end e by blast
  have m: "match ''='' ?e = (False, ?e)" using at_end e n by blast
  have "length (source (newScanner ''1'')) \<le> current (newScanner ''1'') + 1"
    by (simp add: newScanner_def)
  then have pn: "peekNext (newScanner ''1'') = NUL" using at_end by blast
  have r: "rest ?s = ''>''" by (simp add: rest_def newScanner_def)
  have "scanToken (?s\<lparr>start := current ?s\<rparr>) =
        ?s\<lparr>start := current ?s, current := current ?s + 1,
          tokens := tokens ?s @
            [\<lparr>ttype = oneCharOperator (CHR ''>''), lexeme = ''>'', literal = Null,
              tline = line ?s\<rparr>]\<rparr>"
    using at_end r by blast
  then have "scanToken (?s\<lparr>start := 0\<rparr>) =
     \<lparr>source = ''>'',
      tokens = [\<lparr>ttype = GREATER, lexeme = ''>'', literal = Null, tline = 1\<rparr>],
      start = 0, current = 1, line = 1, reports = []\<rparr>"
    by (simp add: newScanner_def oneCharOperator_def)
  with e p m pn n r show ?thesis by blast
qed

end
